theory Spec2Isabelle
  imports Complex_Main "HOL-Library.Sublist" "HOL-Library.Multiset"
begin

section \<open>Classification smoothing for camera-trap results\<close>

text \<open>
  A shallow embedding of \<^verbatim>\<open>classification_postprocessing.py\<close>: the category tally
  (\<^verbatim>\<open>_count_detections_by_category\<close>), the three-pass smoother for one list of
  detections (\<^verbatim>\<open>_smooth_classifications_for_list_of_detections\<close>), the
  normalisation loop of \<^verbatim>\<open>_prepare_results_for_smoothing\<close> and the two drivers.

  Python's exceptions are values of the type \<open>error\<close>; a function that can raise returns
  \<open>error + 'a\<close> with \<open>Inl\<close> for the exception. \<open>Shared_detections\<close> is not an
  exception of the program: it marks the one input of the sequence-level driver that the
  model does not follow (see \<open>smooth_sequence\<close>).
\<close>

subsection \<open>Data model\<close>

datatype error = AssertionError | KeyError | IndexError | TypeError | Shared_detections

type_synonym category_id = string

text \<open>
  A classification entry is the two-element list \<^verbatim>\<open>[category_id, confidence]\<close> of the
  results format; \<^verbatim>\<open>c[0]\<close> is \<open>fst c\<close> and \<^verbatim>\<open>c[1]\<close> is \<open>snd c\<close>. Confidences are
  the numbers of the JSON file, taken as reals; the code only compares them.
\<close>

type_synonym classification = "category_id \<times> real"

text \<open>
  A detection is a dict with the key \<^verbatim>\<open>'conf'\<close> and, optionally, the key
  \<^verbatim>\<open>'classifications'\<close> (\<open>None\<close> when the key is absent). Every other key of the dict
  (\<^verbatim>\<open>'category'\<close>, \<^verbatim>\<open>'bbox'\<close>, ...) lives in the extension part of the record, which
  the functions below carry along untouched.
\<close>

record detection =
  conf :: real
  classifications :: "classification list option"

text \<open>
  The class \<^verbatim>\<open>ClassificationSmoothingOptions\<close>, field by field, and the values its
  constructor sets. No function of the file reads
  \<^verbatim>\<open>propagate_classifications_through_taxonomy\<close>.
\<close>

record options =
  min_detections_to_overwrite_secondary :: int
  max_detections_nondominant_class :: int
  min_detections_to_overwrite_other :: int
  other_category_names :: "string list"
  classification_confidence_threshold :: real
  detection_confidence_threshold :: real
  propagate_classifications_through_taxonomy :: bool
  add_pre_smoothing_description :: bool
  modify_in_place :: bool

definition default_options :: options where
  "default_options =
     \<lparr> min_detections_to_overwrite_secondary = 4,
       max_detections_nondominant_class = 1,
       min_detections_to_overwrite_other = 2,
       other_category_names =
         [''other'', ''unknown'', ''no cv result'', ''animal'', ''blank'', ''mammal''],
       classification_confidence_threshold = 0.5,
       detection_confidence_threshold = 0.15,
       propagate_classifications_through_taxonomy = True,
       add_pre_smoothing_description = True,
       modify_in_place = False \<rparr>"

text \<open>
  The dict returned by the smoother; the sentinel \<^verbatim>\<open>None\<close> is \<open>None\<close> of
  \<open>summary option\<close>.
\<close>

record summary =
  n_other_classifications_changed_this_image :: nat
  n_detections_flipped_this_image :: nat
  n_taxonomic_changes_this_image :: nat

text \<open>
  A Python dict keeps its keys in insertion order, and the smoother depends on that order
  (\<^verbatim>\<open>keys[0]\<close> is the dominant category), so a tally is an association list.
  \<open>lookup\<close> is \<^verbatim>\<open>d[k]\<close> on a plain dict.
\<close>

type_synonym tally = "(category_id \<times> nat) list"

definition lookup :: "('k \<times> 'v) list \<Rightarrow> 'k \<Rightarrow> error + 'v" where
  "lookup d k = (case map_of d k of None \<Rightarrow> Inl KeyError | Some v \<Rightarrow> Inr v)"

subsection \<open>The category tally\<close>

text \<open>
  \<^verbatim>\<open>category_to_count[c[0]] += 1\<close> on a \<^verbatim>\<open>defaultdict(int)\<close>: an existing key keeps its
  place, a new key goes to the end with the count 1.
\<close>

fun increment :: "category_id \<Rightarrow> tally \<Rightarrow> tally" where
  "increment k [] = [(k, 1)]"
| "increment k ((k', v) # kvs) =
     (if k = k' then (k', v + 1) # kvs else (k', v) # increment k kvs)"

text \<open>
  The guard that opens every loop body of the file:
  \<^verbatim>\<open>
  if ('classifications' in det) and (det['conf'] >= options.detection_confidence_threshold):
      assert len(det['classifications']) == 1
      c = det['classifications'][0]
  \<close>
  \<open>Inr None\<close>: the guard is false and the detection is skipped; \<open>Inr (Some c)\<close>: the
  body runs with \<open>c\<close>; \<open>Inl AssertionError\<close>: the assertion fails.
\<close>

definition visible_classification ::
  "options \<Rightarrow> 'a detection_scheme \<Rightarrow> error + classification option" where
  "visible_classification opts det =
     (case classifications det of
        None \<Rightarrow> Inr None
      | Some cs \<Rightarrow>
          if conf det \<ge> detection_confidence_threshold opts then
            (case cs of [c] \<Rightarrow> Inr (Some c) | _ \<Rightarrow> Inl AssertionError)
          else Inr None)"

fun tally_loop :: "'a detection_scheme list \<Rightarrow> options \<Rightarrow> tally \<Rightarrow> error + tally" where
  "tally_loop [] opts category_to_count = Inr category_to_count"
| "tally_loop (det # dets) opts category_to_count =
     (case visible_classification opts det of
        Inl e \<Rightarrow> Inl e
      | Inr None \<Rightarrow> tally_loop dets opts category_to_count
      | Inr (Some c) \<Rightarrow>
          if snd c \<ge> classification_confidence_threshold opts
          then tally_loop dets opts (increment (fst c) category_to_count)
          else tally_loop dets opts category_to_count)"

text \<open>
  \<^verbatim>\<open>sorted(items, key=lambda item: item[1], reverse=True)\<close> is a stable sort by
  descending count: entries with equal counts keep their insertion order. \<open>sort_key\<close>
  is a stable insertion sort, here on the negated count.
\<close>

definition count_detections_by_category ::
  "'a detection_scheme list \<Rightarrow> options \<Rightarrow> error + tally" where
  "count_detections_by_category detections opts =
     (case tally_loop detections opts [] of
        Inl e \<Rightarrow> Inl e
      | Inr category_to_count \<Rightarrow>
          Inr (sort_key (\<lambda>item. - int (snd item)) category_to_count))"

subsection \<open>The three passes of the smoother\<close>

text \<open>
  \<^verbatim>\<open>c[0] = category\<close>: the one write the smoother makes to a detection whose
  classification list is \<open>[c]\<close>.
\<close>

definition set_category :: "category_id \<Rightarrow> classification \<Rightarrow> 'a detection_scheme \<Rightarrow> 'a detection_scheme" where
  "set_category k c det = det\<lparr>classifications := Some [(k, snd c)]\<rparr>"

text \<open>
  A \<^verbatim>\<open>for det in detections\<close> loop whose body may rewrite \<open>det\<close> and add to a change
  counter; the first exception ends the loop.
\<close>

fun for_each_detection ::
  "('a detection_scheme \<Rightarrow> error + ('a detection_scheme \<times> nat)) \<Rightarrow>
   'a detection_scheme list \<Rightarrow> error + ('a detection_scheme list \<times> nat)" where
  "for_each_detection body [] = Inr ([], 0)"
| "for_each_detection body (det # dets) =
     (case body det of
        Inl e \<Rightarrow> Inl e
      | Inr (det', k) \<Rightarrow>
          (case for_each_detection body dets of
             Inl e \<Rightarrow> Inl e
           | Inr (dets', n) \<Rightarrow> Inr (det' # dets', k + n)))"

text \<open>The tie-break on \<^verbatim>\<open>keys\<close> (lines 292 to 300 of the source).\<close>

definition swap_tied_other :: "tally \<Rightarrow> category_id list \<Rightarrow> error + category_id list" where
  "swap_tied_other category_to_count other_category_ids =
     (let keys = map fst category_to_count in
      if length keys > 1 \<and> keys ! 0 \<in> set other_category_ids
         \<and> keys ! 1 \<notin> set other_category_ids then
        (case lookup category_to_count (keys ! 0) of
           Inl e \<Rightarrow> Inl e
         | Inr n0 \<Rightarrow>
            (case lookup category_to_count (keys ! 1) of
               Inl e \<Rightarrow> Inl e
             | Inr n1 \<Rightarrow>
                 if n0 = n1 then Inr (keys[0 := keys ! 1, 1 := keys ! 0]) else Inr keys))
      else Inr keys)"

text \<open>
  \<^verbatim>\<open>max_count = category_to_count[keys[0]]; most_common_category = keys[0]\<close>.
\<close>

definition dominant :: "tally \<Rightarrow> category_id list \<Rightarrow> error + (category_id \<times> nat)" where
  "dominant category_to_count keys =
     (case keys of
        [] \<Rightarrow> Inl IndexError
      | k # _ \<Rightarrow>
          (case lookup category_to_count k of
             Inl e \<Rightarrow> Inl e
           | Inr max_count \<Rightarrow> Inr (k, max_count)))"

text \<open>Body of the pass 1 loop (lines 318 to 330).\<close>

definition other_override_body ::
  "options \<Rightarrow> category_id list \<Rightarrow> category_id \<Rightarrow>
   'a detection_scheme \<Rightarrow> error + ('a detection_scheme \<times> nat)" where
  "other_override_body opts other_category_ids most_common_category det =
     (case visible_classification opts det of
        Inl e \<Rightarrow> Inl e
      | Inr None \<Rightarrow> Inr (det, 0)
      | Inr (Some c) \<Rightarrow>
          if snd c \<ge> classification_confidence_threshold opts
             \<and> fst c \<in> set other_category_ids
          then Inr (set_category most_common_category c det, 1)
          else Inr (det, 0))"

text \<open>Pass 1 with its guard (lines 311 to 336).\<close>

definition other_override_pass ::
  "options \<Rightarrow> category_id list \<Rightarrow> category_id \<Rightarrow> nat \<Rightarrow>
   'a detection_scheme list \<Rightarrow> error + ('a detection_scheme list \<times> nat)" where
  "other_override_pass opts other_category_ids most_common_category max_count detections =
     (if int max_count \<ge> min_detections_to_overwrite_other opts
         \<and> most_common_category \<notin> set other_category_ids
      then for_each_detection
             (other_override_body opts other_category_ids most_common_category) detections
      else Inr (detections, 0))"

text \<open>
  Body of the pass 2 loop (lines 357 to 372). Python's \<^verbatim>\<open>and\<close> evaluates left to
  right and stops at the first false operand, so \<^verbatim>\<open>category_to_count[c[0]]\<close> is read only
  after the first two tests have passed.
\<close>

definition dominant_flip_body ::
  "options \<Rightarrow> tally \<Rightarrow> category_id \<Rightarrow> nat \<Rightarrow>
   'a detection_scheme \<Rightarrow> error + ('a detection_scheme \<times> nat)" where
  "dominant_flip_body opts category_to_count most_common_category max_count det =
     (case visible_classification opts det of
        Inl e \<Rightarrow> Inl e
      | Inr None \<Rightarrow> Inr (det, 0)
      | Inr (Some c) \<Rightarrow>
          if snd c \<ge> classification_confidence_threshold opts
             \<and> fst c \<noteq> most_common_category
          then
            (case lookup category_to_count (fst c) of
               Inl e \<Rightarrow> Inl e
             | Inr n \<Rightarrow>
                 if max_count > n
                    \<and> int max_count > min_detections_to_overwrite_secondary opts
                    \<and> int n \<le> max_detections_nondominant_class opts
                 then Inr (set_category most_common_category c det, 1)
                 else Inr (det, 0))
          else Inr (det, 0))"

text \<open>Pass 2 with its guard (lines 351 to 378).\<close>

definition dominant_flip_pass ::
  "options \<Rightarrow> category_id list \<Rightarrow> tally \<Rightarrow> category_id \<Rightarrow> nat \<Rightarrow>
   'a detection_scheme list \<Rightarrow> error + ('a detection_scheme list \<times> nat)" where
  "dominant_flip_pass opts other_category_ids category_to_count most_common_category
       max_count detections =
     (if most_common_category \<notin> set other_category_ids
      then for_each_detection
             (dominant_flip_body opts category_to_count most_common_category max_count)
             detections
      else Inr (detections, 0))"

text \<open>
  The scan over candidate children (lines 421 to 444). \<open>this\<close>, \<open>description_this\<close> and
  \<open>count_this\<close> are read once before the scan and stay fixed; \<open>c0\<close> is the current
  value of \<^verbatim>\<open>c[0]\<close> and \<open>n\<close> the change counter. The substring test
  \<^verbatim>\<open>a in b\<close> on strings is \<open>sublist a b\<close>.
\<close>

fun candidate_loop ::
  "tally \<Rightarrow> (category_id \<times> string) list \<Rightarrow> category_id \<Rightarrow> string \<Rightarrow> nat \<Rightarrow>
   category_id list \<Rightarrow> category_id \<Rightarrow> nat \<Rightarrow> error + (category_id \<times> nat)" where
  "candidate_loop category_to_count descriptions this description_this count_this
       [] c0 n = Inr (c0, n)"
| "candidate_loop category_to_count descriptions this description_this count_this
       (candidate # keys) c0 n =
     (if candidate = this
      then candidate_loop category_to_count descriptions this description_this count_this
             keys c0 n
      else
        (case lookup descriptions candidate of
           Inl e \<Rightarrow> Inl e
         | Inr description_candidate \<Rightarrow>
             if length description_candidate = 0
             then candidate_loop category_to_count descriptions this description_this
                    count_this keys c0 n
             else if \<not> sublist description_this description_candidate
             then candidate_loop category_to_count descriptions this description_this
                    count_this keys c0 n
             else
               (case lookup category_to_count candidate of
                  Inl e \<Rightarrow> Inl e
                | Inr child_category_count \<Rightarrow>
                    if child_category_count > count_this
                    then candidate_loop category_to_count descriptions this
                           description_this count_this keys candidate (n + 1)
                    else candidate_loop category_to_count descriptions this
                           description_this count_this keys c0 n)))"

text \<open>
  Body of the pass 3 loop (lines 400 to 444). The scan returns the last value written to
  \<^verbatim>\<open>c[0]\<close>, or the category the detection had when nothing was written; putting that
  value into the entry gives the detection as the loop leaves it.
\<close>

definition taxonomic_body ::
  "options \<Rightarrow> tally \<Rightarrow> (category_id \<times> string) list \<Rightarrow>
   'a detection_scheme \<Rightarrow> error + ('a detection_scheme \<times> nat)" where
  "taxonomic_body opts category_to_count descriptions det =
     (case visible_classification opts det of
        Inl e \<Rightarrow> Inl e
      | Inr None \<Rightarrow> Inr (det, 0)
      | Inr (Some c) \<Rightarrow>
          if snd c < classification_confidence_threshold opts then Inr (det, 0)
          else if fst c \<notin> fst ` set category_to_count then Inl AssertionError
          else
            (case lookup descriptions (fst c) of
               Inl e \<Rightarrow> Inl e
             | Inr description_this \<Rightarrow>
                 (case lookup category_to_count (fst c) of
                    Inl e \<Rightarrow> Inl e
                  | Inr count_this \<Rightarrow>
                      (case candidate_loop category_to_count descriptions (fst c)
                              description_this count_this (map fst category_to_count)
                              (fst c) 0 of
                         Inl e \<Rightarrow> Inl e
                       | Inr (c0, n) \<Rightarrow> Inr (set_category c0 c det, n)))))"

text \<open>Pass 3 with its guard (lines 393 to 452).\<close>

definition taxonomic_pass ::
  "options \<Rightarrow> tally \<Rightarrow> (category_id \<times> string) list option \<Rightarrow>
   'a detection_scheme list \<Rightarrow> error + ('a detection_scheme list \<times> nat)" where
  "taxonomic_pass opts category_to_count classification_descriptions_clean detections =
     (case classification_descriptions_clean of
        None \<Rightarrow> Inr (detections, 0)
      | Some descriptions \<Rightarrow>
          if length descriptions > 0 \<and> length category_to_count > 1
          then for_each_detection (taxonomic_body opts category_to_count descriptions)
                 detections
          else Inr (detections, 0))"

subsection \<open>The smoother for one list of detections\<close>

text \<open>
  \<^verbatim>\<open>_smooth_classifications_for_list_of_detections\<close>. The Python function rewrites the
  detections in place and returns the summary; the model returns the rewritten list with
  the summary. The detections of the list are distinct objects, as they are in a results
  file read from JSON where every image belongs to one sequence. The parameter
  \<^verbatim>\<open>classification_descriptions\<close> of the source is never read and is left out.
\<close>

definition smooth_classifications_for_list_of_detections ::
  "'a detection_scheme list \<Rightarrow> options \<Rightarrow> category_id list \<Rightarrow>
   (category_id \<times> string) list option \<Rightarrow>
   error + ('a detection_scheme list \<times> summary option)" where
  "smooth_classifications_for_list_of_detections detections opts other_category_ids
       classification_descriptions_clean =
     (case count_detections_by_category detections opts of
        Inl e \<Rightarrow> Inl e
      | Inr category_to_count \<Rightarrow>
     if length category_to_count \<le> 1 then Inr (detections, None) else
     (case swap_tied_other category_to_count other_category_ids of
        Inl e \<Rightarrow> Inl e
      | Inr keys \<Rightarrow>
     (case dominant category_to_count keys of
        Inl e \<Rightarrow> Inl e
      | Inr (most_common_category, max_count) \<Rightarrow>
     (case other_override_pass opts other_category_ids most_common_category max_count
             detections of
        Inl e \<Rightarrow> Inl e
      | Inr (detections1, n_other) \<Rightarrow>
     (case count_detections_by_category detections1 opts of
        Inl e \<Rightarrow> Inl e
      | Inr category_to_count1 \<Rightarrow>
     (case dominant category_to_count1 (map fst category_to_count1) of
        Inl e \<Rightarrow> Inl e
      | Inr (most_common_category1, max_count1) \<Rightarrow>
     (case dominant_flip_pass opts other_category_ids category_to_count1
             most_common_category1 max_count1 detections1 of
        Inl e \<Rightarrow> Inl e
      | Inr (detections2, n_flipped) \<Rightarrow>
     (case count_detections_by_category detections2 opts of
        Inl e \<Rightarrow> Inl e
      | Inr category_to_count2 \<Rightarrow>
     (case dominant category_to_count2 (map fst category_to_count2) of
        Inl e \<Rightarrow> Inl e
      | Inr (most_common_category2, max_count2) \<Rightarrow>
     (case taxonomic_pass opts category_to_count2 classification_descriptions_clean
             detections2 of
        Inl e \<Rightarrow> Inl e
      | Inr (detections3, n_taxonomic) \<Rightarrow>
          Inr (detections3,
               Some \<lparr> n_other_classifications_changed_this_image = n_other,
                      n_detections_flipped_this_image = n_flipped,
                      n_taxonomic_changes_this_image = n_taxonomic \<rparr>)))))))))))"

subsection \<open>Results, images and the normalisation\<close>

text \<open>
  An image of the results format: \<open>image_file\<close> is the key \<^verbatim>\<open>'file'\<close>;
  \<open>detections\<close> is \<open>None\<close> when the key \<^verbatim>\<open>'detections'\<close> is absent or holds
  \<^verbatim>\<open>None\<close>; \<open>pre_smoothing_description\<close> is \<open>None\<close> until the normaliser adds the
  key. The results dict holds the category table, the optional table of taxonomic
  descriptions and the list of images.
\<close>

record image =
  image_file :: string
  detections :: "detection list option"
  pre_smoothing_description :: "string option"

record results =
  classification_categories :: "(category_id \<times> string) list"
  classification_category_descriptions :: "(category_id \<times> string) list option"
  images :: "image list"

text \<open>
  Modelled from the spec: \<^verbatim>\<open>is_list_sorted\<close> is imported from
  \<^verbatim>\<open>megadetector.utils.ct_utils\<close>, which is not among the sources. The spec says the
  normaliser asserts that the list "was already sorted by descending confidence"; with
  \<^verbatim>\<open>reverse=True\<close> every element is at least the one after it.
\<close>

definition is_list_sorted :: "real list \<Rightarrow> bool \<Rightarrow> bool" where
  "is_list_sorted L reverse =
     (if reverse then sorted_wrt (\<lambda>a b. a \<ge> b) L else sorted_wrt (\<lambda>a b. a \<le> b) L)"

text \<open>
  A \<^verbatim>\<open>for x in xs\<close> loop whose body rewrites \<open>x\<close> or raises.
\<close>

fun for_each :: "('a \<Rightarrow> error + 'a) \<Rightarrow> 'a list \<Rightarrow> error + 'a list" where
  "for_each body [] = Inr []"
| "for_each body (x # xs) =
     (case body x of
        Inl e \<Rightarrow> Inl e
      | Inr x' \<Rightarrow>
          (case for_each body xs of
             Inl e \<Rightarrow> Inl e
           | Inr xs' \<Rightarrow> Inr (x' # xs')))"

text \<open>
  Body of the loop over the detections of an image (lines 207 to 217):
  \<^verbatim>\<open>del det['classifications']\<close> removes the key, and the assertion on the sort order
  comes before the list is cut to its first entry.
\<close>

definition keep_top_classification :: "detection \<Rightarrow> error + detection" where
  "keep_top_classification det =
     (case classifications det of
        None \<Rightarrow> Inr det
      | Some cs \<Rightarrow>
          if length cs = 0 then Inr (det\<lparr>classifications := None\<rparr>)
          else if \<not> is_list_sorted (map snd cs) True then Inl AssertionError
          else Inr (det\<lparr>classifications := Some [cs ! 0]\<rparr>))"

text \<open>Body of the loop over the images (lines 200 to 217).\<close>

definition keep_top_classifications :: "image \<Rightarrow> error + image" where
  "keep_top_classifications im =
     (case detections im of
        None \<Rightarrow> Inr im
      | Some dets \<Rightarrow>
          if length dets = 0 then Inr im
          else (case for_each keep_top_classification dets of
                  Inl e \<Rightarrow> Inl e
                | Inr dets' \<Rightarrow> Inr (im\<lparr>detections := Some dets'\<rparr>)))"

text \<open>
  The ids of the "other" categories (lines 191 to 195). The dict comprehension
  \<^verbatim>\<open>{d[k]: k for k in d}\<close> keeps, for a name that occurs twice, the id that comes last.
\<close>

definition other_ids :: "results \<Rightarrow> options \<Rightarrow> category_id list" where
  "other_ids d opts =
     (let category_name_to_id =
            rev (map (\<lambda>(k, name). (name, k)) (classification_categories d))
      in List.map_filter (map_of category_name_to_id) (other_category_names opts))"

text \<open>\<^verbatim>\<open>s.split(sep)\<close> for a one-character separator.\<close>

fun split_on :: "char \<Rightarrow> string \<Rightarrow> string list" where
  "split_on sep [] = [] # []"
| "split_on sep (x # xs) =
     (if x = sep then [] # split_on sep xs
      else (case split_on sep xs of
              [] \<Rightarrow> [x] # []
            | token # tokens \<Rightarrow> (x # token) # tokens))"

text \<open>\<^verbatim>\<open>sep.join(strings)\<close>.\<close>

fun join :: "string \<Rightarrow> string list \<Rightarrow> string" where
  "join sep [] = []"
| "join sep [s] = s"
| "join sep (s # t # ss) = s @ sep @ join sep (t # ss)"

text \<open>
  \<^verbatim>\<open>'{}'.format(count)\<close> for a count: its decimal digits, the last digit first into
  the accumulator.
\<close>

definition digit_char :: "nat \<Rightarrow> char" where
  "digit_char k = char_of (of_char CHR ''0'' + k)"

function decimal_digits :: "nat \<Rightarrow> string \<Rightarrow> string" where
  "decimal_digits n acc =
     (let acc' = digit_char (n mod 10) # acc
      in if n div 10 = 0 then acc' else decimal_digits (n div 10) acc')"
  by pat_completeness auto
termination
  by (relation "measure fst") auto

definition format_count :: "nat \<Rightarrow> string" where
  "format_count n = decimal_digits n []"

text \<open>
  Body of the loop of \<^verbatim>\<open>_get_description_string\<close> (lines 143 to 152).
  \<^verbatim>\<open>classification_descriptions[category_id]\<close> raises a \<^verbatim>\<open>TypeError\<close> when the table is
  \<^verbatim>\<open>None\<close> and a \<^verbatim>\<open>KeyError\<close> when the id is missing.
\<close>

definition category_string ::
  "tally \<Rightarrow> (category_id \<times> string) list option \<Rightarrow> category_id \<Rightarrow> error + string" where
  "category_string category_to_count classification_descriptions category_id =
     (case classification_descriptions of
        None \<Rightarrow> Inl TypeError
      | Some descriptions \<Rightarrow>
          (case lookup descriptions category_id of
             Inl e \<Rightarrow> Inl e
           | Inr category_description \<Rightarrow>
               (let tokens = split_on CHR '';'' category_description in
                if length tokens \<noteq> 7 then Inl AssertionError
                else
                  (let category_name = last tokens;
                       category_name = (if length category_name = 0
                                        then ''undefined category'' else category_name)
                   in (case lookup category_to_count category_id of
                         Inl e \<Rightarrow> Inl e
                       | Inr category_count \<Rightarrow>
                           Inr (category_name @ '' ('' @ format_count category_count
                                @ '')''))))))"

fun category_strings ::
  "tally \<Rightarrow> (category_id \<times> string) list option \<Rightarrow> category_id list \<Rightarrow> error + string list" where
  "category_strings category_to_count classification_descriptions [] = Inr []"
| "category_strings category_to_count classification_descriptions (category_id # ids) =
     (case category_string category_to_count classification_descriptions category_id of
        Inl e \<Rightarrow> Inl e
      | Inr s \<Rightarrow>
          (case category_strings category_to_count classification_descriptions ids of
             Inl e \<Rightarrow> Inl e
           | Inr ss \<Rightarrow> Inr (s # ss)))"

definition get_description_string ::
  "tally \<Rightarrow> (category_id \<times> string) list option \<Rightarrow> error + string" where
  "get_description_string category_to_count classification_descriptions =
     (case category_strings category_to_count classification_descriptions
             (map fst category_to_count) of
        Inl e \<Rightarrow> Inl e
      | Inr strings \<Rightarrow> Inr (join '', '' strings))"

text \<open>Body of the loop that adds the pre-smoothing descriptions (lines 243 to 252).\<close>

definition describe_image ::
  "options \<Rightarrow> (category_id \<times> string) list option \<Rightarrow> image \<Rightarrow> error + image" where
  "describe_image opts classification_descriptions im =
     (case detections im of
        None \<Rightarrow> Inr im
      | Some dets \<Rightarrow>
          if length dets = 0 then Inr im
          else
            (case count_detections_by_category dets opts of
               Inl e \<Rightarrow> Inl e
             | Inr category_to_count \<Rightarrow>
                 (case get_description_string category_to_count classification_descriptions of
                    Inl e \<Rightarrow> Inl e
                  | Inr s \<Rightarrow> Inr (im\<lparr>pre_smoothing_description := Some s\<rparr>))))"

text \<open>
  What \<^verbatim>\<open>_prepare_results_for_smoothing\<close> returns, a dict with the four keys
  \<^verbatim>\<open>'d'\<close>, \<^verbatim>\<open>'other_category_ids'\<close>, \<^verbatim>\<open>'classification_descriptions_clean'\<close> and
  \<^verbatim>\<open>'classification_descriptions'\<close>, is the tuple of the four values in that order.
\<close>

type_synonym 'd prepared =
  "'d \<times> category_id list \<times> (category_id \<times> string) list option
      \<times> (category_id \<times> string) list option"

text \<open>
  The work of \<^verbatim>\<open>_prepare_results_for_smoothing\<close> on the dict \<open>d\<close> (lines 189 to 260), in
  the order of the source: the "other" ids, the normalisation of every image, the cleaned
  descriptions, the optional pre-smoothing descriptions. \<open>clean\<close> stands for
  \<^verbatim>\<open>clean_taxonomy_string(s).strip(';').lower()\<close>; \<^verbatim>\<open>clean_taxonomy_string\<close> is imported
  from \<^verbatim>\<open>megadetector.utils.wi_utils\<close>, which is not among the sources.
\<close>

definition prepare_dict ::
  "(string \<Rightarrow> string) \<Rightarrow> results \<Rightarrow> options \<Rightarrow> error + results prepared" where
  "prepare_dict clean dict opts =
     (let ids = other_ids dict opts in
      case for_each keep_top_classifications (images dict) of
        Inl e \<Rightarrow> Inl e
      | Inr images1 \<Rightarrow>
          (let descriptions = classification_category_descriptions dict;
               descriptions_clean =
                 map_option (map (\<lambda>(category_id, s). (category_id, clean s))) descriptions
           in case (if add_pre_smoothing_description opts
                    then for_each (describe_image opts descriptions) images1
                    else Inr images1) of
                Inl e \<Rightarrow> Inl e
              | Inr images2 \<Rightarrow>
                  Inr (dict\<lparr>images := images2\<rparr>, ids, descriptions_clean, descriptions)))"

subsection \<open>The heap of results dicts\<close>

text \<open>
  The two drivers either work on the caller's dict or on a deep copy of it, so the
  dicts live in a heap: \<open>cells h a\<close> is the dict at the address \<open>a\<close>, and the addresses
  below \<open>used h\<close> are the ones in use. A deep copy shares nothing with its original, so
  a dict is stored as a value. \<open>alloc\<close> puts a new dict at the first free address.
\<close>

type_synonym addr = nat

record heap =
  cells :: "addr \<Rightarrow> results"
  used :: nat

definition alloc :: "heap \<Rightarrow> results \<Rightarrow> addr \<times> heap" where
  "alloc h v = (used h, \<lparr> cells = (cells h)(used h := v), used = Suc (used h) \<rparr>)"

definition store :: "heap \<Rightarrow> addr \<Rightarrow> results \<Rightarrow> heap" where
  "store h a v = h\<lparr>cells := (cells h)(a := v)\<rparr>"

text \<open>
  The argument \<^verbatim>\<open>input_file\<close>: the name of a file, given here with the dict that
  \<^verbatim>\<open>json.load\<close> reads from it, or a dict the caller already holds.
\<close>

datatype input_file = Path string results | Dict addr

text \<open>
  \<^verbatim>\<open>_prepare_results_for_smoothing\<close> (lines 176 to 260): a file is loaded into a new
  dict; a dict is used as it is when \<^verbatim>\<open>modify_in_place\<close> is set and deep-copied
  otherwise. Everything after that works on \<open>d\<close>.
\<close>

definition prepare_results_for_smoothing ::
  "(string \<Rightarrow> string) \<Rightarrow> heap \<Rightarrow> input_file \<Rightarrow> options \<Rightarrow> error + (addr prepared \<times> heap)" where
  "prepare_results_for_smoothing clean h input opts =
     (let (a, h1) =
            (case input of
               Path name contents \<Rightarrow> alloc h contents
             | Dict input_dict \<Rightarrow>
                 if modify_in_place opts then (input_dict, h)
                 else alloc h (cells h input_dict))
      in case prepare_dict clean (cells h1 a) opts of
           Inl e \<Rightarrow> Inl e
         | Inr (d, ids, descriptions_clean, descriptions) \<Rightarrow>
             Inr ((a, ids, descriptions_clean, descriptions), store h1 a d))"

subsection \<open>Image-level smoothing\<close>

text \<open>
  \<^verbatim>\<open>options = ClassificationSmoothingOptions()\<close> when the caller passes \<^verbatim>\<open>None\<close>.
\<close>

definition options_or_default :: "options option \<Rightarrow> options" where
  "options_or_default given = (case given of None \<Rightarrow> default_options | Some opts \<Rightarrow> opts)"

text \<open>
  \<^verbatim>\<open>_smooth_single_image\<close>: the detections of the image are rewritten in place, so the
  model returns the image with the smoothed list.
\<close>

definition smooth_single_image ::
  "image \<Rightarrow> options \<Rightarrow> category_id list \<Rightarrow> (category_id \<times> string) list option \<Rightarrow>
   error + (image \<times> summary option)" where
  "smooth_single_image im opts ids descriptions_clean =
     (case detections im of
        None \<Rightarrow> Inr (im, None)
      | Some dets \<Rightarrow>
          if length dets = 0 then Inr (im, None)
          else
            (case smooth_classifications_for_list_of_detections dets opts ids
                    descriptions_clean of
               Inl e \<Rightarrow> Inl e
             | Inr (dets', r) \<Rightarrow> Inr (im\<lparr>detections := Some dets'\<rparr>, r)))"

text \<open>
  \<^verbatim>\<open>smooth_classification_results_image_level\<close>. The counters of the loop are only
  printed and the optional output file is only written, so the model keeps neither; it
  returns the address of \<open>d\<close> with the heap.
\<close>

definition smooth_classification_results_image_level ::
  "(string \<Rightarrow> string) \<Rightarrow> heap \<Rightarrow> input_file \<Rightarrow> options option \<Rightarrow> error + (addr \<times> heap)" where
  "smooth_classification_results_image_level clean h input given =
     (let opts = options_or_default given in
      case prepare_results_for_smoothing clean h input opts of
        Inl e \<Rightarrow> Inl e
      | Inr ((d, ids, descriptions_clean, descriptions), h1) \<Rightarrow>
          (case for_each
                  (\<lambda>im. case smooth_single_image im opts ids descriptions_clean of
                           Inl e \<Rightarrow> Inl e
                         | Inr (im', changes) \<Rightarrow> Inr im')
                  (images (cells h1 d)) of
             Inl e \<Rightarrow> Inl e
           | Inr images' \<Rightarrow> Inr (d, store h1 d ((cells h1 d)\<lparr>images := images'\<rparr>))))"

subsection \<open>Sequence-level smoothing\<close>

text \<open>
  An entry of the \<^verbatim>\<open>'images'\<close> list of the sequence information; the other keys are
  not read.
\<close>

record sequence_entry =
  file_name :: string
  seq_id :: string

text \<open>
  \<^verbatim>\<open>sequence_to_image_filenames[im['seq_id']].append(im['file_name'])\<close> on a
  \<^verbatim>\<open>defaultdict(list)\<close>.
\<close>

fun append_to :: "string \<Rightarrow> string \<Rightarrow> (string \<times> string list) list \<Rightarrow> (string \<times> string list) list" where
  "append_to k v [] = [(k, [v])]"
| "append_to k v ((k', vs) # kvs) =
     (if k = k' then (k', vs @ [v]) # kvs else (k', vs) # append_to k v kvs)"

definition sequence_to_image_filenames ::
  "sequence_entry list \<Rightarrow> (string \<times> string list) list" where
  "sequence_to_image_filenames image_info =
     fold (\<lambda>im acc. append_to (seq_id im) (file_name im) acc) image_info []"

text \<open>
  \<^verbatim>\<open>image_fn_to_classification_results\<close> maps a file name to the image object of
  \<^verbatim>\<open>d['images']\<close>; in the model the object is named by its position in that list.
\<close>

fun image_fn_to_classification_results ::
  "image list \<Rightarrow> nat \<Rightarrow> (string \<times> nat) list \<Rightarrow> error + (string \<times> nat) list" where
  "image_fn_to_classification_results [] i acc = Inr acc"
| "image_fn_to_classification_results (im # ims) i acc =
     (if image_file im \<in> fst ` set acc then Inl AssertionError
      else image_fn_to_classification_results ims (Suc i) (acc @ [(image_file im, i)]))"

text \<open>
  The loop that builds \<^verbatim>\<open>detections_this_sequence\<close> (lines 687 to 692): for every
  image of the sequence that has detections, its position and its detections.
\<close>

fun gather ::
  "image list \<Rightarrow> (string \<times> nat) list \<Rightarrow> string list \<Rightarrow> error + (nat \<times> detection list) list" where
  "gather ims fn_to_image [] = Inr []"
| "gather ims fn_to_image (image_filename # filenames) =
     (case lookup fn_to_image image_filename of
        Inl e \<Rightarrow> Inl e
      | Inr i \<Rightarrow>
          (case gather ims fn_to_image filenames of
             Inl e \<Rightarrow> Inl e
           | Inr rest \<Rightarrow>
               (case detections (ims ! i) of
                  None \<Rightarrow> Inr rest
                | Some dets \<Rightarrow> Inr ((i, dets) # rest))))"

text \<open>
  The detections of the sequence are the objects of the images themselves, so the
  changes of the smoother show in the images: the smoothed list is cut back into the
  pieces it was put together from.
\<close>

fun scatter :: "image list \<Rightarrow> (nat \<times> detection list) list \<Rightarrow> detection list \<Rightarrow> image list" where
  "scatter ims [] smoothed = ims"
| "scatter ims ((i, dets) # rest) smoothed =
     scatter (ims[i := (ims ! i)\<lparr>detections := Some (take (length dets) smoothed)\<rparr>])
       rest (drop (length dets) smoothed)"

text \<open>
  Body of the loop over the sequences (lines 683 to 705). When a sequence lists the same
  file twice, its detections occur twice in the list given to the smoother, as the same
  objects; the list-of-values model of the smoother does not cover that, and the model
  stops with \<open>Shared_detections\<close>, which is not an exception of the program.
\<close>

definition smooth_sequence ::
  "image list \<Rightarrow> (string \<times> nat) list \<Rightarrow> options \<Rightarrow> category_id list \<Rightarrow>
   (category_id \<times> string) list option \<Rightarrow> string list \<Rightarrow> error + image list" where
  "smooth_sequence ims fn_to_image opts ids descriptions_clean image_filenames_this_sequence =
     (case gather ims fn_to_image image_filenames_this_sequence of
        Inl e \<Rightarrow> Inl e
      | Inr pieces \<Rightarrow>
          (let detections_this_sequence = concat (map snd pieces) in
           if length detections_this_sequence = 0 then Inr ims
           else if \<not> distinct (map fst (filter (\<lambda>piece. snd piece \<noteq> []) pieces))
           then Inl Shared_detections
           else
             (case smooth_classifications_for_list_of_detections detections_this_sequence
                     opts ids descriptions_clean of
                Inl e \<Rightarrow> Inl e
              | Inr (smoothed, r) \<Rightarrow> Inr (scatter ims pieces smoothed))))"

fun smooth_sequences ::
  "image list \<Rightarrow> (string \<times> nat) list \<Rightarrow> options \<Rightarrow> category_id list \<Rightarrow>
   (category_id \<times> string) list option \<Rightarrow> (string \<times> string list) list \<Rightarrow> error + image list" where
  "smooth_sequences ims fn_to_image opts ids descriptions_clean [] = Inr ims"
| "smooth_sequences ims fn_to_image opts ids descriptions_clean (sequence # sequences) =
     (case smooth_sequence ims fn_to_image opts ids descriptions_clean (snd sequence) of
        Inl e \<Rightarrow> Inl e
      | Inr ims' \<Rightarrow> smooth_sequences ims' fn_to_image opts ids descriptions_clean sequences)"

text \<open>
  \<^verbatim>\<open>smooth_classification_results_sequence_level\<close>, given the \<^verbatim>\<open>'images'\<close> list of the
  sequence information. As for the image level, the printed counters and the output
  file are left out.
\<close>

definition smooth_classification_results_sequence_level ::
  "(string \<Rightarrow> string) \<Rightarrow> heap \<Rightarrow> input_file \<Rightarrow> sequence_entry list \<Rightarrow> options option \<Rightarrow>
   error + (addr \<times> heap)" where
  "smooth_classification_results_sequence_level clean h input image_info given =
     (let opts = options_or_default given in
      case prepare_results_for_smoothing clean h input opts of
        Inl e \<Rightarrow> Inl e
      | Inr ((d, ids, descriptions_clean, descriptions), h1) \<Rightarrow>
          (let sequences = sequence_to_image_filenames image_info in
           case image_fn_to_classification_results (images (cells h1 d)) 0 [] of
             Inl e \<Rightarrow> Inl e
           | Inr fn_to_image \<Rightarrow>
               (case smooth_sequences (images (cells h1 d)) fn_to_image opts ids
                       descriptions_clean sequences of
                  Inl e \<Rightarrow> Inl e
                | Inr images' \<Rightarrow>
                    Inr (d, store h1 d ((cells h1 d)\<lparr>images := images'\<rparr>)))))"

subsection \<open>Vocabulary for the properties\<close>

text \<open>
  A detection \<^emph>\<open>qualifies\<close> when it has a classification entry, its detection confidence
  is at least \<^verbatim>\<open>detection_confidence_threshold\<close> and the confidence of its first
  classification entry is at least \<^verbatim>\<open>classification_confidence_threshold\<close>;
  \<open>qualifying_category\<close> is then the category id of that entry, and \<open>None\<close> for a
  detection that does not qualify.
\<close>

definition qualifying_category :: "options \<Rightarrow> 'a detection_scheme \<Rightarrow> category_id option" where
  "qualifying_category opts det =
     (case classifications det of
        Some (c # _) \<Rightarrow>
          if conf det \<ge> detection_confidence_threshold opts
             \<and> snd c \<ge> classification_confidence_threshold opts
          then Some (fst c) else None
      | _ \<Rightarrow> None)"

definition qualifying_categories :: "options \<Rightarrow> 'a detection_scheme list \<Rightarrow> category_id list" where
  "qualifying_categories opts dets = List.map_filter (qualifying_category opts) dets"

text \<open>The number of qualifying detections of a list that carry the category \<open>k\<close>.\<close>

definition tally_count :: "options \<Rightarrow> 'a detection_scheme list \<Rightarrow> category_id \<Rightarrow> nat" where
  "tally_count opts dets k = count_list (qualifying_categories opts dets) k"




text \<open>
  \<open>det'\<close> is \<open>det\<close>, or \<open>det\<close> qualifies and \<open>det'\<close> is \<open>det\<close> with the category id of
  its one classification entry replaced by a category of \<open>K\<close>.
\<close>

definition relabeled ::
  "options \<Rightarrow> category_id set \<Rightarrow> 'a detection_scheme \<Rightarrow> 'a detection_scheme \<Rightarrow> bool" where
  "relabeled opts K det det' \<longleftrightarrow>
     det' = det
     \<or> (\<exists>c k. classifications det = Some [c]
            \<and> conf det \<ge> detection_confidence_threshold opts
            \<and> snd c \<ge> classification_confidence_threshold opts
            \<and> k \<in> K \<and> det' = set_category k c det)"


text \<open>
  Vocabulary for the normaliser: the dict that \<^verbatim>\<open>_prepare_results_for_smoothing\<close> is
  given, whether some detection of it has classification confidences that fail the
  test of the assertion (they are not in descending order), and what the normaliser
  makes of a detection and of an image.
\<close>

definition given_dict :: "heap \<Rightarrow> input_file \<Rightarrow> results" where
  "given_dict h input = (case input of Path name contents \<Rightarrow> contents | Dict a \<Rightarrow> cells h a)"

definition has_unsorted_classifications :: "results \<Rightarrow> bool" where
  "has_unsorted_classifications dict =
     list_ex (\<lambda>im. case detections im of
                     None \<Rightarrow> False
                   | Some dets \<Rightarrow>
                       list_ex (\<lambda>det. case classifications det of
                                        None \<Rightarrow> False
                                      | Some cs \<Rightarrow> \<not> is_list_sorted (map snd cs) True)
                         dets)
       (images dict)"

definition top_only :: "detection \<Rightarrow> detection \<Rightarrow> bool" where
  "top_only det det' \<longleftrightarrow>
     conf det' = conf det
     \<and> classifications det' =
         (case classifications det of
            None \<Rightarrow> None
          | Some [] \<Rightarrow> None
          | Some (c # cs) \<Rightarrow> Some [c])"

definition normalised_image :: "image \<Rightarrow> image \<Rightarrow> bool" where
  "normalised_image im im' \<longleftrightarrow>
     image_file im' = image_file im
     \<and> (case detections im of
          None \<Rightarrow> detections im' = None
        | Some dets \<Rightarrow> \<exists>dets'. detections im' = Some dets' \<and> list_all2 top_only dets dets')"

subsection \<open>Examples\<close>

text \<open>A detection with confidence 0.9 whose one classification entry is \<open>(k, 0.9)\<close>.\<close>

definition det_of :: "category_id \<Rightarrow> detection" where
  "det_of k = \<lparr>conf = 0.9, classifications = Some [(k, 0.9)]\<rparr>"

text \<open>An example of a results dict before normalisation, and a heap that holds it.\<close>

definition raw_detection :: "category_id \<Rightarrow> detection" where
  "raw_detection k = \<lparr>conf = 0.9, classifications = Some [(k, 0.9), (''3'', 0.05)]\<rparr>"

definition example_results :: results where
  "example_results =
     \<lparr> classification_categories = [(''1'', ''cow''), (''2'', ''deer''), (''3'', ''other'')],
       classification_category_descriptions =
         Some [(''1'', ''a;b;c;d;e;f;cow''), (''2'', ''a;b;c;d;e;g;deer''),
               (''3'', '';;;;;;'')],
       images =
         [\<lparr> image_file = ''a.jpg'',
             detections = Some (replicate 5 (raw_detection ''1'') @ [raw_detection ''2'']),
             pre_smoothing_description = None \<rparr>,
          \<lparr> image_file = ''b.jpg'',
             detections = Some [raw_detection ''2'',
                                \<lparr>conf = 0.3, classifications = Some []\<rparr>],
             pre_smoothing_description = None \<rparr>,
          \<lparr> image_file = ''c.jpg'', detections = None,
             pre_smoothing_description = None \<rparr>] \<rparr>"

definition unsorted_results :: results where
  "unsorted_results =
     example_results
       \<lparr> images :=
           [\<lparr> image_file = ''a.jpg'',
               detections = Some [\<lparr>conf = 0.9,
                                   classifications = Some [(''1'', 0.3), (''2'', 0.8)]\<rparr>],
               pre_smoothing_description = None \<rparr>] \<rparr>"

definition heap_of :: "results \<Rightarrow> heap" where
  "heap_of dict = \<lparr> cells = (\<lambda>a. dict), used = 1 \<rparr>"

section \<open>Properties\<close>

subsection \<open>The tally counts the qualifying detections\<close>

lemma visible_qualifying:
  "visible_classification opts det = Inr v \<Longrightarrow>
   qualifying_category opts det =
     (case v of None \<Rightarrow> None
      | Some c \<Rightarrow> if snd c \<ge> classification_confidence_threshold opts
                  then Some (fst c) else None)"
  by (auto simp: visible_classification_def qualifying_category_def
           split: option.splits if_splits list.splits)

lemma qualifying_categories_Cons:
  "qualifying_categories opts (det # dets) =
     (case qualifying_category opts det of None \<Rightarrow> qualifying_categories opts dets
      | Some k \<Rightarrow> k # qualifying_categories opts dets)"
  by (simp add: qualifying_categories_def map_filter_simps split: option.splits)

lemma qualifying_categories_Nil [simp]: "qualifying_categories opts [] = []"
  by (simp add: qualifying_categories_def map_filter_simps)

lemma tally_loop_fold:
  "tally_loop dets opts acc = Inr t \<Longrightarrow>
   t = fold increment (qualifying_categories opts dets) acc"
proof (induction dets arbitrary: acc)
  case Nil
  then show ?case by simp
next
  case (Cons det dets)
  then show ?case
    by (auto simp: qualifying_categories_Cons dest!: visible_qualifying
             split: sum.splits option.splits if_splits)
qed

lemma map_of_increment:
  "map_of (increment k t) k' =
     (if k' = k then Some (case map_of t k of None \<Rightarrow> 1 | Some v \<Rightarrow> v + 1)
      else map_of t k')"
  by (induction k t rule: increment.induct) auto

lemma keys_increment:
  "fst ` set (increment k t) = insert k (fst ` set t)"
  by (induction k t rule: increment.induct) auto

lemma distinct_increment:
  "distinct (map fst t) \<Longrightarrow> distinct (map fst (increment k t))"
  by (induction k t rule: increment.induct) (auto simp: keys_increment)

lemma distinct_fold_increment:
  "distinct (map fst acc) \<Longrightarrow> distinct (map fst (fold increment ks acc))"
  by (induction ks arbitrary: acc) (auto simp: distinct_increment)

lemma map_of_fold_increment:
  "map_of (fold increment ks acc) k =
     (case map_of acc k of
        None \<Rightarrow> if k \<in> set ks then Some (count_list ks k) else None
      | Some v \<Rightarrow> Some (v + count_list ks k))"
  by (induction ks arbitrary: acc) (auto simp: map_of_increment split: option.splits)

lemma distinct_keys_sort_key:
  "distinct (map fst (sort_key f xs)) = distinct (map fst xs)"
proof -
  have "mset (map fst (sort_key f xs)) = mset (map fst xs)" by simp
  then show ?thesis by (rule mset_eq_imp_distinct_iff)
qed

lemma map_of_sort_key:
  "distinct (map fst xs) \<Longrightarrow> map_of (sort_key f xs) = map_of xs"
  by (rule map_of_inject_set[THEN iffD2]) (simp_all add: distinct_keys_sort_key)

lemma count_detections_distinct:
  "count_detections_by_category dets opts = Inr t \<Longrightarrow> distinct (map fst t)"
  by (auto simp: count_detections_by_category_def distinct_keys_sort_key
      distinct_fold_increment split: sum.splits dest!: tally_loop_fold)

lemma count_detections_map_of:
  assumes "count_detections_by_category dets opts = Inr t"
  shows "map_of t k =
     (if k \<in> set (qualifying_categories opts dets)
      then Some (count_list (qualifying_categories opts dets) k) else None)"
proof -
  from assms obtain acc where acc: "tally_loop dets opts [] = Inr acc"
    and t: "t = sort_key (\<lambda>item. - int (snd item)) acc"
    by (auto simp: count_detections_by_category_def split: sum.splits)
  from acc have f: "acc = fold increment (qualifying_categories opts dets) []"
    by (rule tally_loop_fold)
  have "distinct (map fst acc)" unfolding f by (rule distinct_fold_increment) simp
  then have "map_of t = map_of acc" unfolding t by (rule map_of_sort_key)
  then show ?thesis by (simp add: f map_of_fold_increment)
qed

lemma count_detections_keys:
  assumes "count_detections_by_category dets opts = Inr t"
  shows "set (map fst t) = set (qualifying_categories opts dets)"
proof -
  have "k \<in> fst ` set t \<longleftrightarrow> k \<in> set (qualifying_categories opts dets)" for k
    using count_detections_map_of[OF assms, of k]
    by (cases "map_of t k")
       (force simp: map_of_eq_None_iff dest: map_of_SomeD split: if_splits)+
  then show ?thesis by auto
qed

lemma count_detections_sorted:
  assumes "count_detections_by_category dets opts = Inr t"
  shows "sorted (map (\<lambda>item. - int (snd item)) t)"
  using assms by (auto simp: count_detections_by_category_def split: sum.splits)

lemma count_detections_head_max:
  assumes "count_detections_by_category dets opts = Inr ((k0, v0) # rest)"
  shows "count_list (qualifying_categories opts dets) k \<le> v0"
proof (cases "k \<in> set (qualifying_categories opts dets)")
  case True
  with count_detections_map_of[OF assms, of k]
  have "map_of ((k0, v0) # rest) k = Some (count_list (qualifying_categories opts dets) k)"
    by simp
  then have "(k, count_list (qualifying_categories opts dets) k) \<in> set ((k0, v0) # rest)"
    by (rule map_of_SomeD)
  with count_detections_sorted[OF assms] show ?thesis by auto
next
  case False
  then show ?thesis by (simp add: count_list_0_iff)
qed

subsection \<open>Loops over the detections\<close>

lemma for_each_detection_all2:
  "for_each_detection body dets = Inr (dets', n) \<Longrightarrow>
   list_all2 (\<lambda>det det'. \<exists>k. body det = Inr (det', k)) dets dets'"
  by (induction dets arbitrary: dets' n) (auto split: sum.splits prod.splits)



lemma for_each_detection_total:
  "(\<forall>det \<in> set dets. \<exists>r. body det = Inr r) \<Longrightarrow> \<exists>r. for_each_detection body dets = Inr r"
  by (induction dets) (auto split: sum.splits prod.splits)

subsection \<open>Pass 2: the dominant flip\<close>

lemma qualifying_category_in_set:
  "det \<in> set dets \<Longrightarrow> qualifying_category opts det = Some k \<Longrightarrow>
   k \<in> set (qualifying_categories opts dets)"
  by (induction dets) (auto simp: qualifying_categories_Cons split: option.splits)

lemma lookup_tally:
  assumes "count_detections_by_category dets opts = Inr t"
    and "k \<in> set (qualifying_categories opts dets)"
  shows "lookup t k = Inr (tally_count opts dets k)"
  using count_detections_map_of[OF assms(1), of k] assms(2)
  by (simp add: lookup_def tally_count_def)

lemma dominant_tally:
  assumes "count_detections_by_category dets opts = Inr t"
    and "dominant t (map fst t) = Inr (mcc, max_count)"
  shows "mcc \<in> set (qualifying_categories opts dets)"
    and "max_count = tally_count opts dets mcc"
    and "tally_count opts dets k \<le> max_count"
proof -
  from assms(2) obtain v0 rest where t: "t = (mcc, v0) # rest"
    by (cases t) (auto simp: dominant_def split: sum.splits)
  with assms(2) have v0: "max_count = v0"
    by (auto simp: dominant_def lookup_def)
  show 1: "mcc \<in> set (qualifying_categories opts dets)"
    using count_detections_keys[OF assms(1)] t by auto
  from lookup_tally[OF assms(1) 1] assms(2) t
  show "max_count = tally_count opts dets mcc"
    by (auto simp: dominant_def)
  from count_detections_head_max[OF assms(1)[unfolded t], of k] v0
  show "tally_count opts dets k \<le> max_count" by (simp add: tally_count_def)
qed

lemma qualifying_categoryD:
  "qualifying_category opts det = Some k \<Longrightarrow> visible_classification opts det = Inr v \<Longrightarrow>
   \<exists>c. v = Some c \<and> classifications det = Some [c] \<and> fst c = k
       \<and> snd c \<ge> classification_confidence_threshold opts"
  by (auto simp: visible_classification_def qualifying_category_def
           split: option.splits if_splits list.splits)

lemma not_qualifyingD:
  "qualifying_category opts det = None \<Longrightarrow> visible_classification opts det = Inr v \<Longrightarrow>
   v = None \<or> (\<exists>c. v = Some c \<and> snd c < classification_confidence_threshold opts)"
  by (auto simp: visible_classification_def qualifying_category_def
           split: option.splits if_splits list.splits)




subsection \<open>Pass 1: the "other" override\<close>







subsection \<open>Pass 3: the taxonomic collapse\<close>












subsection \<open>What a run can change\<close>

lemma relabeled_refl: "relabeled opts K det det"
  by (simp add: relabeled_def)

lemma relabeled_mono: "relabeled opts K det det' \<Longrightarrow> K \<subseteq> K' \<Longrightarrow> relabeled opts K' det det'"
  by (auto simp: relabeled_def)

lemma relabeled_trans:
  "relabeled opts K det det' \<Longrightarrow> relabeled opts K det' det'' \<Longrightarrow> relabeled opts K det det''"
  by (auto simp: relabeled_def set_category_def)

lemma relabeled_not_qualifying:
  "relabeled opts K det det' \<Longrightarrow> qualifying_category opts det = None \<Longrightarrow> det' = det"
  by (auto simp: relabeled_def qualifying_category_def split: option.splits list.splits if_splits)

lemma relabeled_qualifying:
  "relabeled opts K det det' \<Longrightarrow> qualifying_category opts det = Some k \<Longrightarrow>
   \<exists>k'. qualifying_category opts det' = Some k' \<and> k' \<in> insert k K"
  by (auto simp: relabeled_def qualifying_category_def set_category_def
           split: option.splits list.splits if_splits)

lemma relabeled_qualifying_back:
  "relabeled opts K det det' \<Longrightarrow> qualifying_category opts det' = Some k' \<Longrightarrow>
   \<exists>k. qualifying_category opts det = Some k \<and> k' \<in> insert k K"
  by (auto simp: relabeled_def qualifying_category_def set_category_def
           split: option.splits list.splits if_splits)

lemma relabeled_frame:
  "relabeled opts K det det' \<Longrightarrow>
   conf det' = conf det \<and> detection.more det' = detection.more det
   \<and> map_option (map snd) (classifications det') = map_option (map snd) (classifications det)"
  by (auto simp: relabeled_def set_category_def)

lemma relabeled_visible:
  "relabeled opts K det det' \<Longrightarrow> visible_classification opts det = Inr v \<Longrightarrow>
   \<exists>v'. visible_classification opts det' = Inr v'"
  by (auto simp: relabeled_def visible_classification_def set_category_def)

lemma visible_qualifies:
  "visible_classification opts det = Inr (Some c) \<Longrightarrow>
   classifications det = Some [c] \<and> conf det \<ge> detection_confidence_threshold opts"
  by (auto simp: visible_classification_def split: option.splits if_splits list.splits)

lemma other_override_body_relabeled:
  "other_override_body opts other_category_ids mcc det = Inr (det', j) \<Longrightarrow>
   relabeled opts {mcc} det det'"
  by (auto simp: other_override_body_def relabeled_def
           split: sum.splits option.splits if_splits dest!: visible_qualifies)

lemma dominant_flip_body_relabeled:
  "dominant_flip_body opts t mcc m det = Inr (det', j) \<Longrightarrow> relabeled opts {mcc} det det'"
  by (auto simp: dominant_flip_body_def relabeled_def
           split: sum.splits option.splits if_splits dest!: visible_qualifies)

lemma candidate_loop_mem:
  "candidate_loop t descriptions this description_this count_this keys c0 n = Inr (c', n') \<Longrightarrow>
   n \<le> n' \<and> (n' = n \<longrightarrow> c' = c0) \<and> (c' = c0 \<or> c' \<in> set keys)"
proof (induction keys arbitrary: c0 n)
  case Nil
  then show ?case by simp
next
  case (Cons k keys)
  from Cons.prems show ?case
    by (auto split: if_splits sum.splits dest!: Cons.IH)
qed

lemma taxonomic_body_relabeled:
  assumes "taxonomic_body opts t descriptions det = Inr (det', j)"
  shows "relabeled opts (fst ` set t) det det'"
proof -
  from assms obtain v where v: "visible_classification opts det = Inr v"
    by (auto simp: taxonomic_body_def split: sum.splits)
  show ?thesis
  proof (cases v)
    case None
    with assms v show ?thesis by (simp add: taxonomic_body_def relabeled_def)
  next
    case (Some c)
    note vq = visible_qualifies[OF v[unfolded Some]]
    show ?thesis
    proof (cases "snd c < classification_confidence_threshold opts")
      case True
      with assms v Some show ?thesis by (simp add: taxonomic_body_def relabeled_def)
    next
      case False
      with assms v Some obtain dthis cthis c0 where
        "candidate_loop t descriptions (fst c) dthis cthis (map fst t) (fst c) 0 = Inr (c0, j)"
        and det': "det' = set_category c0 c det"
        by (auto simp: taxonomic_body_def split: if_splits sum.splits)
      from candidate_loop_mem[OF this(1)] have "c0 = fst c \<or> c0 \<in> fst ` set t" by auto
      then show ?thesis
      proof
        assume "c0 = fst c"
        with det' vq show ?thesis by (simp add: relabeled_def set_category_def)
      next
        assume "c0 \<in> fst ` set t"
        with det' vq False show ?thesis by (auto simp: relabeled_def)
      qed
    qed
  qed
qed

lemma for_each_detection_rel:
  assumes "for_each_detection body dets = Inr (dets', n)"
    and "\<And>det det' j. body det = Inr (det', j) \<Longrightarrow> R det det'"
  shows "list_all2 R dets dets'"
  using for_each_detection_all2[OF assms(1)] assms(2)
  by (auto elim!: list_all2_mono)

lemma other_override_pass_relabeled:
  "other_override_pass opts other_category_ids mcc m dets = Inr (dets', n) \<Longrightarrow>
   list_all2 (relabeled opts {mcc}) dets dets'"
  by (auto simp: other_override_pass_def list_all2_refl relabeled_refl split: if_splits
           elim!: for_each_detection_rel other_override_body_relabeled)

lemma dominant_flip_pass_relabeled:
  "dominant_flip_pass opts other_category_ids t mcc m dets = Inr (dets', n) \<Longrightarrow>
   list_all2 (relabeled opts {mcc}) dets dets'"
  by (auto simp: dominant_flip_pass_def list_all2_refl relabeled_refl split: if_splits
           elim!: for_each_detection_rel dominant_flip_body_relabeled)

lemma taxonomic_pass_relabeled:
  "taxonomic_pass opts t classification_descriptions_clean dets = Inr (dets', n) \<Longrightarrow>
   list_all2 (relabeled opts (fst ` set t)) dets dets'"
  by (auto simp: taxonomic_pass_def list_all2_refl relabeled_refl
           split: if_splits option.splits
           elim!: for_each_detection_rel taxonomic_body_relabeled)

lemma relabeled_categories:
  assumes "list_all2 (relabeled opts K) dets dets'"
  shows "set (qualifying_categories opts dets')
           \<subseteq> set (qualifying_categories opts dets) \<union> K"
  using assms
proof (induction rule: list_all2_induct)
  case Nil
  then show ?case by simp
next
  case (Cons det dets det' dets')
  from relabeled_qualifying_back[OF Cons.hyps(1)] Cons.IH show ?case
    by (auto simp: qualifying_categories_Cons split: option.splits)
qed

lemma relabeled_categories_nonempty:
  assumes "list_all2 (relabeled opts K) dets dets'"
    and "qualifying_categories opts dets \<noteq> []"
  shows "qualifying_categories opts dets' \<noteq> []"
  using assms
proof (induction rule: list_all2_induct)
  case Nil
  then show ?case by simp
next
  case (Cons det dets det' dets')
  show ?case
  proof (cases "qualifying_category opts det")
    case None
    with Cons show ?thesis
      by (auto simp: qualifying_categories_Cons split: option.splits)
  next
    case (Some k)
    from relabeled_qualifying[OF Cons.hyps(1) Some] show ?thesis
      by (auto simp: qualifying_categories_Cons)
  qed
qed

lemma list_all2_relabeled_trans:
  "list_all2 (relabeled opts K) xs ys \<Longrightarrow> list_all2 (relabeled opts K) ys zs \<Longrightarrow>
   list_all2 (relabeled opts K) xs zs"
  by (rule list_all2_trans[of "relabeled opts K" "relabeled opts K" "relabeled opts K"])
     (auto elim: relabeled_trans)

lemma list_all2_relabeled_mono:
  "list_all2 (relabeled opts K) xs ys \<Longrightarrow> K \<subseteq> K' \<Longrightarrow> list_all2 (relabeled opts K') xs ys"
  by (erule list_all2_mono) (rule relabeled_mono)

subsection \<open>The stages of a run\<close>

lemma smooth_None_iff:
  "smooth_classifications_for_list_of_detections dets opts other_category_ids descs
     = Inr (dets', None)
   \<longleftrightarrow> (\<exists>t. count_detections_by_category dets opts = Inr t \<and> length t \<le> 1) \<and> dets' = dets"
  unfolding smooth_classifications_for_list_of_detections_def
  by (auto split: sum.splits if_splits prod.splits)

lemma smooth_stages:
  assumes "smooth_classifications_for_list_of_detections dets opts other_category_ids descs
             = Inr (dets', Some s)"
  obtains t keys mcc m dets1 n1 t1 mcc1 m1 dets2 n2 t2 mcc2 m2 n3 where
    "count_detections_by_category dets opts = Inr t" "length t > 1"
    "swap_tied_other t other_category_ids = Inr keys"
    "dominant t keys = Inr (mcc, m)"
    "other_override_pass opts other_category_ids mcc m dets = Inr (dets1, n1)"
    "count_detections_by_category dets1 opts = Inr t1"
    "dominant t1 (map fst t1) = Inr (mcc1, m1)"
    "dominant_flip_pass opts other_category_ids t1 mcc1 m1 dets1 = Inr (dets2, n2)"
    "count_detections_by_category dets2 opts = Inr t2"
    "dominant t2 (map fst t2) = Inr (mcc2, m2)"
    "taxonomic_pass opts t2 descs dets2 = Inr (dets', n3)"
    "s = \<lparr> n_other_classifications_changed_this_image = n1,
           n_detections_flipped_this_image = n2,
           n_taxonomic_changes_this_image = n3 \<rparr>"
  using assms unfolding smooth_classifications_for_list_of_detections_def
  by (auto split: sum.splits if_splits prod.splits)

lemma smooth_stagesI:
  assumes "count_detections_by_category dets opts = Inr t" "length t > 1"
    "swap_tied_other t other_category_ids = Inr keys"
    "dominant t keys = Inr (mcc, m)"
    "other_override_pass opts other_category_ids mcc m dets = Inr (dets1, n1)"
    "count_detections_by_category dets1 opts = Inr t1"
    "dominant t1 (map fst t1) = Inr (mcc1, m1)"
    "dominant_flip_pass opts other_category_ids t1 mcc1 m1 dets1 = Inr (dets2, n2)"
    "count_detections_by_category dets2 opts = Inr t2"
    "dominant t2 (map fst t2) = Inr (mcc2, m2)"
    "taxonomic_pass opts t2 descs dets2 = Inr (dets', n3)"
  shows "smooth_classifications_for_list_of_detections dets opts other_category_ids descs
           = Inr (dets', Some \<lparr> n_other_classifications_changed_this_image = n1,
                                n_detections_flipped_this_image = n2,
                                n_taxonomic_changes_this_image = n3 \<rparr>)"
  using assms unfolding smooth_classifications_for_list_of_detections_def
  by simp

lemma swap_tied_other_set:
  assumes "swap_tied_other t other_category_ids = Inr keys"
  shows "set keys = fst ` set t"
proof (cases t)
  case Nil
  with assms show ?thesis by (simp add: swap_tied_other_def)
next
  case (Cons x xs)
  show ?thesis
  proof (cases xs)
    case Nil
    with Cons assms show ?thesis by (auto simp: swap_tied_other_def)
  next
    case (Cons y ys)
    with \<open>t = x # xs\<close> assms show ?thesis
      by (auto simp: swap_tied_other_def Let_def split: if_splits sum.splits)
         (force+)
  qed
qed

lemma dominant_mem:
  "dominant t keys = Inr (mcc, m) \<Longrightarrow> mcc \<in> set keys"
  by (auto simp: dominant_def split: list.splits sum.splits)

lemma smooth_relabeled:
  assumes "smooth_classifications_for_list_of_detections dets opts other_category_ids descs
             = Inr (dets', r)"
  shows "list_all2 (relabeled opts (set (qualifying_categories opts dets))) dets dets'"
proof (cases r)
  case None
  with assms have "dets' = dets" by (simp add: smooth_None_iff)
  then show ?thesis by (simp add: list_all2_refl relabeled_refl)
next
  case (Some s)
  let ?K = "set (qualifying_categories opts dets)"
  from assms[unfolded Some] obtain t keys mcc m dets1 n1 t1 mcc1 m1 dets2 n2 t2 n3
    where st: "count_detections_by_category dets opts = Inr t"
    "swap_tied_other t other_category_ids = Inr keys"
    "dominant t keys = Inr (mcc, m)"
    "other_override_pass opts other_category_ids mcc m dets = Inr (dets1, n1)"
    "count_detections_by_category dets1 opts = Inr t1"
    "dominant t1 (map fst t1) = Inr (mcc1, m1)"
    "dominant_flip_pass opts other_category_ids t1 mcc1 m1 dets1 = Inr (dets2, n2)"
    "count_detections_by_category dets2 opts = Inr t2"
    "taxonomic_pass opts t2 descs dets2 = Inr (dets', n3)"
    by (rule smooth_stages)
  have "mcc \<in> ?K"
    using dominant_mem[OF st(3)] swap_tied_other_set[OF st(2)] count_detections_keys[OF st(1)]
    by auto
  with other_override_pass_relabeled[OF st(4)]
  have r1: "list_all2 (relabeled opts ?K) dets dets1"
    by (auto elim: list_all2_relabeled_mono)
  from relabeled_categories[OF r1]
  have k1: "set (qualifying_categories opts dets1) \<subseteq> ?K" by simp
  with dominant_tally(1)[OF st(5,6)] have "mcc1 \<in> ?K" by auto
  with dominant_flip_pass_relabeled[OF st(7)]
  have "list_all2 (relabeled opts ?K) dets1 dets2"
    by (auto elim: list_all2_relabeled_mono)
  with r1 have r2: "list_all2 (relabeled opts ?K) dets dets2"
    by (rule list_all2_relabeled_trans)
  from relabeled_categories[OF r2] count_detections_keys[OF st(8)]
  have "fst ` set t2 \<subseteq> ?K" by auto
  with taxonomic_pass_relabeled[OF st(9)]
  have "list_all2 (relabeled opts ?K) dets2 dets'"
    by (auto elim: list_all2_relabeled_mono)
  with r2 show ?thesis by (rule list_all2_relabeled_trans)
qed

lemma tally_loop_remove:
  "tally_loop (xs @ det # ys) opts acc = Inr t \<Longrightarrow> qualifying_category opts det = None \<Longrightarrow>
   tally_loop (xs @ ys) opts acc = Inr t"
proof (induction xs arbitrary: acc)
  case Nil
  then obtain v where v: "visible_classification opts det = Inr v"
    by (auto split: sum.splits)
  from visible_qualifying[OF v] Nil v show ?case
    by (auto split: option.splits if_splits)
next
  case (Cons x xs)
  then show ?case by (auto split: sum.splits option.splits if_splits)
qed

lemma list_all2_relabeled_nth:
  assumes "list_all2 (relabeled opts K) dets dets'" and "i < length dets"
    and "qualifying_category opts (dets ! i) = None"
  shows "dets' ! i = dets ! i"
  using assms by (auto simp: list_all2_conv_all_nth dest: relabeled_not_qualifying)

text \<open>
  Claim C5. A detection whose detection confidence is below
  \<^verbatim>\<open>detection_confidence_threshold\<close>, or which has no classification entry, or whose
  first classification entry has a confidence below
  \<^verbatim>\<open>classification_confidence_threshold\<close>, does not qualify. Taking it out of the list
  leaves the tally as it is, each of the three passes returns it unchanged whatever the
  tally and the dominant category are, and so does a whole run of the smoother.
\<close>

theorem below_threshold_invisible:
  fixes dets :: "'a detection_scheme list"
  assumes i: "i < length dets"
    and below: "conf (dets ! i) < detection_confidence_threshold opts
                \<or> classifications (dets ! i) = None
                \<or> classifications (dets ! i) = Some []
                \<or> (\<exists>c cs. classifications (dets ! i) = Some (c # cs)
                       \<and> snd c < classification_confidence_threshold opts)"
  shows "qualifying_category opts (dets ! i) = None
       \<and> (\<forall>t. count_detections_by_category dets opts = Inr t \<longrightarrow>
              count_detections_by_category (take i dets @ drop (Suc i) dets) opts = Inr t)
       \<and> (\<forall>other_category_ids mcc m dets' n.
              other_override_pass opts other_category_ids mcc m dets = Inr (dets', n) \<longrightarrow>
              dets' ! i = dets ! i)
       \<and> (\<forall>other_category_ids t mcc m dets' n.
              dominant_flip_pass opts other_category_ids t mcc m dets = Inr (dets', n) \<longrightarrow>
              dets' ! i = dets ! i)
       \<and> (\<forall>t descs dets' n.
              taxonomic_pass opts t descs dets = Inr (dets', n) \<longrightarrow> dets' ! i = dets ! i)
       \<and> (\<forall>other_category_ids descs dets' r.
              smooth_classifications_for_list_of_detections dets opts other_category_ids descs
                = Inr (dets', r) \<longrightarrow> dets' ! i = dets ! i)"
proof -
  from below have q: "qualifying_category opts (dets ! i) = None"
    by (auto simp: qualifying_category_def split: option.splits list.splits)
  have tally: "count_detections_by_category (take i dets @ drop (Suc i) dets) opts = Inr t"
    if "count_detections_by_category dets opts = Inr t" for t
  proof -
    from that obtain acc where acc: "tally_loop dets opts [] = Inr acc"
      and t: "t = sort_key (\<lambda>item. - int (snd item)) acc"
      by (auto simp: count_detections_by_category_def split: sum.splits)
    from acc id_take_nth_drop[OF i]
    have "tally_loop (take i dets @ dets ! i # drop (Suc i) dets) opts [] = Inr acc" by simp
    from tally_loop_remove[OF this q] t show ?thesis
      by (simp add: count_detections_by_category_def)
  qed
  have p1: "dets' ! i = dets ! i"
    if "other_override_pass opts other_category_ids mcc m dets = Inr (dets', n)"
    for other_category_ids mcc m dets' n
    using list_all2_relabeled_nth[OF other_override_pass_relabeled[OF that] i q] .
  have p2: "dets' ! i = dets ! i"
    if "dominant_flip_pass opts other_category_ids t mcc m dets = Inr (dets', n)"
    for other_category_ids t mcc m dets' n
    using list_all2_relabeled_nth[OF dominant_flip_pass_relabeled[OF that] i q] .
  have p3: "dets' ! i = dets ! i"
    if "taxonomic_pass opts t descs dets = Inr (dets', n)" for t descs dets' n
    using list_all2_relabeled_nth[OF taxonomic_pass_relabeled[OF that] i q] .
  have run: "dets' ! i = dets ! i"
    if "smooth_classifications_for_list_of_detections dets opts other_category_ids descs
          = Inr (dets', r)" for other_category_ids descs dets' r
    using list_all2_relabeled_nth[OF smooth_relabeled[OF that] i q] .
  from q tally p1 p2 p3 run show ?thesis by blast
qed

theorem below_threshold_invisible_witness:
  "(0::nat) < length (\<lparr>conf = 0.1, classifications = Some [(''deer'', 0.9)]\<rparr>
                      # det_of ''elk'' # replicate 5 (det_of ''cow''))
   \<and> conf ((\<lparr>conf = 0.1, classifications = Some [(''deer'', 0.9)]\<rparr>
              # det_of ''elk'' # replicate 5 (det_of ''cow'')) ! 0)
       < detection_confidence_threshold default_options
   \<and> smooth_classifications_for_list_of_detections
        (\<lparr>conf = 0.1, classifications = Some [(''deer'', 0.9)]\<rparr>
           # det_of ''elk'' # replicate 5 (det_of ''cow''))
        default_options [] None
      = Inr (\<lparr>conf = 0.1, classifications = Some [(''deer'', 0.9)]\<rparr>
               # replicate 6 (det_of ''cow''),
             Some \<lparr> n_other_classifications_changed_this_image = 0,
                    n_detections_flipped_this_image = 1,
                    n_taxonomic_changes_this_image = 0 \<rparr>)
   \<and> count_detections_by_category (det_of ''elk'' # replicate 5 (det_of ''cow''))
        default_options = Inr [(''cow'', 5), (''elk'', 1)]"
proof -
  let ?low = "\<lparr>conf = 0.1, classifications = Some [(''deer'', 0.9)]\<rparr>"
  let ?dets = "?low # det_of ''elk'' # replicate 5 (det_of ''cow'')"
  have h1: "(0::nat) < length ?dets" by simp
  have h2: "conf (?dets ! 0) < detection_confidence_threshold default_options"
    by (simp add: default_options_def)
  then have below: "conf (?dets ! 0) < detection_confidence_threshold default_options
                \<or> classifications (?dets ! 0) = None
                \<or> classifications (?dets ! 0) = Some []
                \<or> (\<exists>c cs. classifications (?dets ! 0) = Some (c # cs)
                       \<and> snd c < classification_confidence_threshold default_options)" ..
  have h3: "smooth_classifications_for_list_of_detections ?dets default_options [] None
      = Inr (?low # replicate 6 (det_of ''cow''),
             Some \<lparr> n_other_classifications_changed_this_image = 0,
                    n_detections_flipped_this_image = 1,
                    n_taxonomic_changes_this_image = 0 \<rparr>)"
    by code_simp
  have h4: "count_detections_by_category ?dets default_options = Inr [(''cow'', 5), (''elk'', 1)]"
    by code_simp
  from below_threshold_invisible[OF h1 below, THEN conjunct2, THEN conjunct1, rule_format, OF h4]
  have "count_detections_by_category (det_of ''elk'' # replicate 5 (det_of ''cow''))
        default_options = Inr [(''cow'', 5), (''elk'', 1)]" by simp
  with h1 h2 h3 show ?thesis by (intro conjI)
qed

text \<open>
  Claim C8. A run of the smoother that returns gives back a list of the same length in
  which every detection has the confidence and the other fields it had, a classification
  list exactly when it had one, with as many entries and the same confidence values; a
  detection that differs from the one passed in had a single classification entry and
  differs from it in the category id of that entry only.
\<close>

theorem smoothing_frame:
  assumes run: "smooth_classifications_for_list_of_detections dets opts other_category_ids descs
                  = Inr (dets', r)"
  shows "length dets' = length dets
       \<and> (\<forall>i < length dets.
            conf (dets' ! i) = conf (dets ! i)
            \<and> detection.more (dets' ! i) = detection.more (dets ! i)
            \<and> map_option (map snd) (classifications (dets' ! i))
                = map_option (map snd) (classifications (dets ! i))
            \<and> (dets' ! i \<noteq> dets ! i \<longrightarrow>
                 (\<exists>c k. classifications (dets ! i) = Some [c]
                    \<and> dets' ! i = (dets ! i)\<lparr>classifications := Some [(k, snd c)]\<rparr>)))"
proof -
  note r = smooth_relabeled[OF run]
  then have len: "length dets' = length dets" by (simp add: list_all2_lengthD)
  have "conf (dets' ! i) = conf (dets ! i)
            \<and> detection.more (dets' ! i) = detection.more (dets ! i)
            \<and> map_option (map snd) (classifications (dets' ! i))
                = map_option (map snd) (classifications (dets ! i))
            \<and> (dets' ! i \<noteq> dets ! i \<longrightarrow>
                 (\<exists>c k. classifications (dets ! i) = Some [c]
                    \<and> dets' ! i = (dets ! i)\<lparr>classifications := Some [(k, snd c)]\<rparr>))"
    if "i < length dets" for i
  proof -
    from r that have rel: "relabeled opts (set (qualifying_categories opts dets))
                             (dets ! i) (dets' ! i)"
      by (simp add: list_all2_conv_all_nth)
    from relabeled_frame[OF rel] rel show ?thesis
      by (auto simp: relabeled_def set_category_def)
  qed
  with len show ?thesis by blast
qed

theorem smoothing_frame_witness:
  "smooth_classifications_for_list_of_detections
        (det_of ''elk'' # replicate 5 (det_of ''cow'')) default_options [] None
      = Inr (replicate 6 (det_of ''cow''),
             Some \<lparr> n_other_classifications_changed_this_image = 0,
                    n_detections_flipped_this_image = 1,
                    n_taxonomic_changes_this_image = 0 \<rparr>)
   \<and> length (replicate 6 (det_of ''cow''))
       = length (det_of ''elk'' # replicate 5 (det_of ''cow''))
   \<and> (\<exists>c k. classifications (det_of ''elk'') = Some [c]
          \<and> det_of ''cow'' = (det_of ''elk'')\<lparr>classifications := Some [(k, snd c)]\<rparr>)"
proof -
  let ?dets = "det_of ''elk'' # replicate 5 (det_of ''cow'')"
  let ?dets' = "replicate 6 (det_of ''cow'')"
  have h: "smooth_classifications_for_list_of_detections ?dets default_options [] None
      = Inr (?dets',
             Some \<lparr> n_other_classifications_changed_this_image = 0,
                    n_detections_flipped_this_image = 1,
                    n_taxonomic_changes_this_image = 0 \<rparr>)"
    by code_simp
  note f = smoothing_frame[OF h]
  from f have len: "length ?dets' = length ?dets" by (rule conjunct1)
  have i0: "0 < length ?dets" by simp
  have e1: "?dets' ! 0 = det_of ''cow''" by code_simp
  have e2: "?dets ! 0 = det_of ''elk''" by simp
  have ne: "det_of ''cow'' \<noteq> det_of ''elk''" by code_simp
  from f[THEN conjunct2, rule_format, OF i0]
  have "?dets' ! 0 \<noteq> ?dets ! 0 \<longrightarrow>
                 (\<exists>c k. classifications (?dets ! 0) = Some [c]
                    \<and> ?dets' ! 0 = (?dets ! 0)\<lparr>classifications := Some [(k, snd c)]\<rparr>)"
    by blast
  then have "det_of ''cow'' \<noteq> det_of ''elk'' \<longrightarrow>
         (\<exists>c k. classifications (det_of ''elk'') = Some [c]
          \<and> det_of ''cow'' = (det_of ''elk'')\<lparr>classifications := Some [(k, snd c)]\<rparr>)"
    unfolding e1 e2 .
  with ne have "\<exists>c k. classifications (det_of ''elk'') = Some [c]
          \<and> det_of ''cow'' = (det_of ''elk'')\<lparr>classifications := Some [(k, snd c)]\<rparr>"
    by (rule rev_mp)
  with h len show ?thesis by (intro conjI)
qed

subsection \<open>When a run returns\<close>

lemma lookup_total:
  "k \<in> fst ` set d \<Longrightarrow> \<exists>v. lookup d k = Inr v"
  by (cases "map_of d k") (auto simp: lookup_def map_of_eq_None_iff)

lemma tally_loop_visible:
  "tally_loop dets opts acc = Inr t \<Longrightarrow>
   \<forall>det \<in> set dets. \<exists>v. visible_classification opts det = Inr v"
  by (induction dets arbitrary: acc) (auto split: sum.splits option.splits if_splits)

lemma tally_loop_total:
  "\<forall>det \<in> set dets. \<exists>v. visible_classification opts det = Inr v \<Longrightarrow>
   \<exists>t. tally_loop dets opts acc = Inr t"
  by (induction dets arbitrary: acc) (auto split: sum.splits option.splits)

lemma count_detections_visible:
  "count_detections_by_category dets opts = Inr t \<Longrightarrow>
   \<forall>det \<in> set dets. \<exists>v. visible_classification opts det = Inr v"
  by (auto simp: count_detections_by_category_def split: sum.splits dest: tally_loop_visible)

lemma count_detections_total:
  assumes "\<forall>det \<in> set dets. \<exists>v. visible_classification opts det = Inr v"
  shows "\<exists>t. count_detections_by_category dets opts = Inr t"
  using tally_loop_total[OF assms, of "[]"]
  by (auto simp: count_detections_by_category_def)

lemma relabeled_all_visible:
  assumes "list_all2 (relabeled opts K) dets dets'"
    and "\<forall>det \<in> set dets. \<exists>v. visible_classification opts det = Inr v"
  shows "\<forall>det \<in> set dets'. \<exists>v. visible_classification opts det = Inr v"
  using assms
  by (induction rule: list_all2_induct) (auto dest: relabeled_visible)

lemma swap_tied_other_total:
  "\<exists>keys. swap_tied_other t other_category_ids = Inr keys"
proof (cases t)
  case Nil
  then show ?thesis by (simp add: swap_tied_other_def)
next
  case (Cons x xs)
  show ?thesis
  proof (cases xs)
    case Nil
    with Cons show ?thesis by (simp add: swap_tied_other_def)
  next
    case (Cons y ys)
    with \<open>t = x # xs\<close> show ?thesis
      by (cases x; cases y) (auto simp: swap_tied_other_def Let_def lookup_def)
  qed
qed

lemma dominant_total:
  assumes "keys \<noteq> []" and "set keys \<subseteq> fst ` set t"
  shows "\<exists>mcc m. dominant t keys = Inr (mcc, m)"
proof -
  from assms obtain k ks where k: "keys = k # ks" by (cases keys) auto
  with assms have "k \<in> fst ` set t" by auto
  from lookup_total[OF this] k show ?thesis by (auto simp: dominant_def)
qed

lemma dominant_of_tally_total:
  assumes "count_detections_by_category dets opts = Inr t"
    and "qualifying_categories opts dets \<noteq> []"
  shows "\<exists>mcc m. dominant t (map fst t) = Inr (mcc, m)"
proof -
  from count_detections_keys[OF assms(1)] assms(2) have "map fst t \<noteq> []"
    by (metis set_empty)
  then show ?thesis by (intro dominant_total) auto
qed

lemma other_override_body_total:
  "visible_classification opts det = Inr v \<Longrightarrow>
   \<exists>r. other_override_body opts other_category_ids mcc det = Inr r"
  by (auto simp: other_override_body_def split: option.splits)

lemma other_override_pass_total:
  assumes "\<forall>det \<in> set dets. \<exists>v. visible_classification opts det = Inr v"
  shows "\<exists>dets' n. other_override_pass opts other_category_ids mcc m dets = Inr (dets', n)"
proof -
  have "\<exists>r. for_each_detection (other_override_body opts other_category_ids mcc) dets = Inr r"
  proof (intro for_each_detection_total ballI)
    fix det assume "det \<in> set dets"
    with assms obtain v where "visible_classification opts det = Inr v" by blast
    then show "\<exists>r. other_override_body opts other_category_ids mcc det = Inr r"
      by (rule other_override_body_total)
  qed
  then show ?thesis by (auto simp: other_override_pass_def)
qed

lemma dominant_flip_body_total:
  assumes t: "count_detections_by_category dets opts = Inr t" and det: "det \<in> set dets"
  shows "\<exists>r. dominant_flip_body opts t mcc m det = Inr r"
proof -
  from count_detections_visible[OF t] det obtain v where
    v: "visible_classification opts det = Inr v" by blast
  show ?thesis
  proof (cases "qualifying_category opts det")
    case None
    from not_qualifyingD[OF None v] v show ?thesis
      by (auto simp: dominant_flip_body_def)
  next
    case (Some k)
    from qualifying_categoryD[OF Some v] obtain c where c: "v = Some c" "fst c = k" by blast
    from lookup_tally[OF t qualifying_category_in_set[OF det Some]] v c show ?thesis
      by (auto simp: dominant_flip_body_def)
  qed
qed

lemma dominant_flip_pass_total:
  assumes "count_detections_by_category dets opts = Inr t"
  shows "\<exists>dets' n. dominant_flip_pass opts other_category_ids t mcc m dets = Inr (dets', n)"
proof -
  have "\<exists>r. for_each_detection (dominant_flip_body opts t mcc m) dets = Inr r"
    using dominant_flip_body_total[OF assms] by (intro for_each_detection_total) auto
  then show ?thesis by (auto simp: dominant_flip_pass_def)
qed

lemma candidate_loop_total:
  assumes "set keys \<subseteq> fst ` set t" and "set keys \<subseteq> fst ` set descriptions"
  shows "\<exists>r. candidate_loop t descriptions this description_this count_this keys c0 n = Inr r"
  using assms
proof (induction keys arbitrary: c0 n)
  case Nil
  then show ?case by simp
next
  case (Cons k keys)
  then have "k \<in> fst ` set t" "k \<in> fst ` set descriptions" by auto
  from lookup_total[OF this(1)] lookup_total[OF this(2)] obtain v d where
    "lookup t k = Inr v" "lookup descriptions k = Inr d" by blast
  with Cons show ?case by auto
qed

lemma taxonomic_body_total:
  assumes t: "count_detections_by_category dets opts = Inr t" and det: "det \<in> set dets"
    and cover: "set (qualifying_categories opts dets) \<subseteq> fst ` set descriptions"
  shows "\<exists>r. taxonomic_body opts t descriptions det = Inr r"
proof -
  from count_detections_visible[OF t] det obtain v where
    v: "visible_classification opts det = Inr v" by blast
  note keys = count_detections_keys[OF t]
  show ?thesis
  proof (cases "qualifying_category opts det")
    case None
    from not_qualifyingD[OF None v] v show ?thesis
      by (auto simp: taxonomic_body_def)
  next
    case (Some k)
    from qualifying_categoryD[OF Some v] obtain c where c: "v = Some c" "fst c = k"
      "snd c \<ge> classification_confidence_threshold opts" by blast
    note mem = qualifying_category_in_set[OF det Some]
    with keys have kt: "k \<in> fst ` set t" by auto
    from mem cover have "k \<in> fst ` set descriptions" by auto
    from lookup_total[OF this] obtain d where d: "lookup descriptions k = Inr d" ..
    from keys cover have "set (map fst t) \<subseteq> fst ` set t"
      "set (map fst t) \<subseteq> fst ` set descriptions" by auto
    from candidate_loop_total[OF this, of k d "tally_count opts dets k" k 0]
    obtain r where "candidate_loop t descriptions k d (tally_count opts dets k)
                      (map fst t) k 0 = Inr r" ..
    with v c kt d lookup_tally[OF t mem] show ?thesis
      by (cases r) (auto simp: taxonomic_body_def)
  qed
qed

lemma taxonomic_pass_total:
  assumes "count_detections_by_category dets opts = Inr t"
    and "\<forall>ds. descs = Some ds \<and> ds \<noteq> [] \<longrightarrow>
           set (qualifying_categories opts dets) \<subseteq> fst ` set ds"
  shows "\<exists>dets' n. taxonomic_pass opts t descs dets = Inr (dets', n)"
proof (cases "\<exists>ds. descs = Some ds \<and> ds \<noteq> [] \<and> length t > 1")
  case False
  then show ?thesis by (auto simp: taxonomic_pass_def split: option.splits)
next
  case True
  then obtain ds where ds: "descs = Some ds" "ds \<noteq> []" "length t > 1" by blast
  with assms(2) have "set (qualifying_categories opts dets) \<subseteq> fst ` set ds" by blast
  from taxonomic_body_total[OF assms(1) _ this]
  have "\<exists>r. for_each_detection (taxonomic_body opts t ds) dets = Inr r"
    by (intro for_each_detection_total) auto
  with ds show ?thesis by (auto simp: taxonomic_pass_def)
qed

lemma smooth_total:
  assumes t: "count_detections_by_category dets opts = Inr t" and two: "length t > 1"
    and cover: "\<forall>ds. descs = Some ds \<and> ds \<noteq> [] \<longrightarrow>
                  set (qualifying_categories opts dets) \<subseteq> fst ` set ds"
  shows "\<exists>dets' s. smooth_classifications_for_list_of_detections dets opts
                      other_category_ids descs = Inr (dets', Some s)"
proof -
  let ?K = "set (qualifying_categories opts dets)"
  note keys_t = count_detections_keys[OF t]
  from two have "t \<noteq> []" by auto
  with keys_t have ne: "qualifying_categories opts dets \<noteq> []" by auto
  from swap_tied_other_total obtain keys where
    keys: "swap_tied_other t other_category_ids = Inr keys" by blast
  note ks = swap_tied_other_set[OF keys]
  with \<open>t \<noteq> []\<close> have "keys \<noteq> []" by auto
  from dominant_total[OF this, of t] ks obtain mcc m where
    dom: "dominant t keys = Inr (mcc, m)" by auto
  from dominant_mem[OF dom] ks keys_t have mcc: "mcc \<in> ?K" by auto
  note vis = count_detections_visible[OF t]
  from other_override_pass_total[OF vis] obtain dets1 n1 where
    p1: "other_override_pass opts other_category_ids mcc m dets = Inr (dets1, n1)" by blast
  note r1 = other_override_pass_relabeled[OF p1]
  note vis1 = relabeled_all_visible[OF r1 vis]
  from count_detections_total[OF vis1] obtain t1 where
    t1: "count_detections_by_category dets1 opts = Inr t1" ..
  from dominant_of_tally_total[OF t1 relabeled_categories_nonempty[OF r1 ne]]
  obtain mcc1 m1 where dom1: "dominant t1 (map fst t1) = Inr (mcc1, m1)" by blast
  from relabeled_categories[OF r1] mcc
  have k1: "set (qualifying_categories opts dets1) \<subseteq> ?K" by auto
  with dominant_tally(1)[OF t1 dom1] have mcc1: "mcc1 \<in> ?K" by auto
  from dominant_flip_pass_total[OF t1] obtain dets2 n2 where
    p2: "dominant_flip_pass opts other_category_ids t1 mcc1 m1 dets1 = Inr (dets2, n2)"
    by blast
  note r2 = dominant_flip_pass_relabeled[OF p2]
  note vis2 = relabeled_all_visible[OF r2 vis1]
  from count_detections_total[OF vis2] obtain t2 where
    t2: "count_detections_by_category dets2 opts = Inr t2" ..
  have ne2: "qualifying_categories opts dets2 \<noteq> []"
    by (rule relabeled_categories_nonempty[OF r2 relabeled_categories_nonempty[OF r1 ne]])
  from dominant_of_tally_total[OF t2 ne2]
  obtain mcc2 m2 where dom2: "dominant t2 (map fst t2) = Inr (mcc2, m2)" by blast
  from relabeled_categories[OF r2] k1 mcc1
  have "set (qualifying_categories opts dets2) \<subseteq> ?K" by auto
  with cover have "\<forall>ds. descs = Some ds \<and> ds \<noteq> [] \<longrightarrow>
                  set (qualifying_categories opts dets2) \<subseteq> fst ` set ds" by blast
  from taxonomic_pass_total[OF t2 this] obtain dets' n3 where
    p3: "taxonomic_pass opts t2 descs dets2 = Inr (dets', n3)" by blast
  from smooth_stagesI[OF t two keys dom p1 t1 dom1 p2 t2 dom2 p3] show ?thesis by blast
qed

lemma tally_length:
  assumes "count_detections_by_category dets opts = Inr t"
  shows "length t = card (set (qualifying_categories opts dets))"
proof -
  from count_detections_distinct[OF assms] have "card (set (map fst t)) = length (map fst t)"
    by (rule distinct_card)
  with count_detections_keys[OF assms] show ?thesis by simp
qed

text \<open>
  Claim C6. The smoother returns the sentinel \<open>None\<close> exactly when the tally of the list
  it is given has fewer than two categories, that is, when the qualifying detections
  carry fewer than two distinct category ids, and then the list it returns is the list
  it was given. When the tally has two or more categories and every tallied category
  has an entry in the table of cleaned descriptions (if such a table is given and is
  not empty), the smoother returns a summary, the dict with the three change counts.
\<close>

theorem sentinel_iff_fewer_than_two:
  "(smooth_classifications_for_list_of_detections dets opts other_category_ids descs
      = Inr (dets', None)
    \<longleftrightarrow> (\<exists>t. count_detections_by_category dets opts = Inr t \<and> length t < 2) \<and> dets' = dets)
   \<and> (\<forall>t. count_detections_by_category dets opts = Inr t \<longrightarrow>
          length t = card (set (qualifying_categories opts dets)))
   \<and> (\<forall>t. count_detections_by_category dets opts = Inr t \<and> length t \<ge> 2
          \<and> (\<forall>ds. descs = Some ds \<and> ds \<noteq> [] \<longrightarrow>
                 set (qualifying_categories opts dets) \<subseteq> fst ` set ds) \<longrightarrow>
          (\<exists>dets'' s. smooth_classifications_for_list_of_detections dets opts
                        other_category_ids descs = Inr (dets'', Some s)))"
proof (intro conjI allI impI)
  show "smooth_classifications_for_list_of_detections dets opts other_category_ids descs
      = Inr (dets', None)
    \<longleftrightarrow> (\<exists>t. count_detections_by_category dets opts = Inr t \<and> length t < 2) \<and> dets' = dets"
    unfolding smooth_None_iff by (simp add: less_Suc_eq_le numeral_2_eq_2)
next
  fix t assume "count_detections_by_category dets opts = Inr t"
  then show "length t = card (set (qualifying_categories opts dets))" by (rule tally_length)
next
  fix t assume a: "count_detections_by_category dets opts = Inr t \<and> length t \<ge> 2
          \<and> (\<forall>ds. descs = Some ds \<and> ds \<noteq> [] \<longrightarrow>
                 set (qualifying_categories opts dets) \<subseteq> fst ` set ds)"
  then have "length t > 1" by simp
  with a show "\<exists>dets'' s. smooth_classifications_for_list_of_detections dets opts
                        other_category_ids descs = Inr (dets'', Some s)"
    by (intro smooth_total[of dets opts t]) auto
qed

theorem sentinel_iff_fewer_than_two_witness:
  "count_detections_by_category (replicate 3 (det_of ''cow'')) default_options
     = Inr [(''cow'', 3)]
   \<and> length [(''cow'', 3 :: nat)] < 2
   \<and> smooth_classifications_for_list_of_detections (replicate 3 (det_of ''cow''))
       default_options [] None = Inr (replicate 3 (det_of ''cow''), None)"
proof -
  let ?dets = "replicate 3 (det_of ''cow'')"
  have h1: "count_detections_by_category ?dets default_options = Inr [(''cow'', 3)]"
    by code_simp
  have h2: "length [(''cow'', 3 :: nat)] < 2" by simp
  from h1 h2 have "(\<exists>t. count_detections_by_category ?dets default_options = Inr t
                        \<and> length t < 2) \<and> ?dets = ?dets" by blast
  with sentinel_iff_fewer_than_two[of ?dets default_options "[]" None ?dets, THEN conjunct1]
  have "smooth_classifications_for_list_of_detections ?dets default_options [] None
          = Inr (?dets, None)" by (rule iffD2)
  with h1 h2 show ?thesis by (intro conjI)
qed

subsection \<open>Running the smoother twice\<close>












subsection \<open>The normaliser\<close>

lemma for_each_all2:
  "for_each body xs = Inr ys \<Longrightarrow> list_all2 (\<lambda>x y. body x = Inr y) xs ys"
  by (induction xs arbitrary: ys) (auto split: sum.splits)

lemma for_each_raises:
  assumes "\<exists>x \<in> set xs. \<exists>e. body x = Inl e"
    and "\<And>x e. x \<in> set xs \<Longrightarrow> body x = Inl e \<Longrightarrow> e = e0"
  shows "for_each body xs = Inl e0"
  using assms
proof (induction xs)
  case Nil
  then show ?case by simp
next
  case (Cons x xs)
  show ?case
  proof (cases "body x")
    case (Inl e)
    with Cons.prems(2)[of x e] show ?thesis by simp
  next
    case (Inr x')
    with Cons.prems have ex: "\<exists>x \<in> set xs. \<exists>e. body x = Inl e" by auto
    have "for_each body xs = Inl e0"
      by (rule Cons.IH[OF ex]) (rule Cons.prems(2), simp_all)
    with Inr show ?thesis by simp
  qed
qed

lemma keep_top_classification_cases:
  "keep_top_classification det =
     (case classifications det of
        None \<Rightarrow> Inr det
      | Some [] \<Rightarrow> Inr (det\<lparr>classifications := None\<rparr>)
      | Some (c # cs) \<Rightarrow>
          if is_list_sorted (map snd (c # cs)) True
          then Inr (det\<lparr>classifications := Some [c]\<rparr>)
          else Inl AssertionError)"
  by (auto simp: keep_top_classification_def split: option.splits list.splits)

lemma keep_top_classification_error:
  "keep_top_classification det = Inl e \<Longrightarrow> e = AssertionError"
  by (auto simp: keep_top_classification_def split: option.splits if_splits)

lemma keep_top_classification_top_only:
  "keep_top_classification det = Inr det' \<Longrightarrow> top_only det det'"
  by (auto simp: keep_top_classification_cases top_only_def split: option.splits list.splits if_splits)

lemma keep_top_classifications_error:
  "keep_top_classifications im = Inl e \<Longrightarrow> e = AssertionError"
proof -
  assume a: "keep_top_classifications im = Inl e"
  then obtain dets where "for_each keep_top_classification dets = Inl e"
    by (auto simp: keep_top_classifications_def split: option.splits if_splits sum.splits)
  then show ?thesis
  proof (induction dets)
    case Nil
    then show ?case by simp
  next
    case (Cons det dets)
    then show ?case
      by (auto split: sum.splits dest: keep_top_classification_error)
  qed
qed

lemma keep_top_classifications_normalised:
  assumes "keep_top_classifications im = Inr im'"
  shows "normalised_image im im'"
proof (cases "detections im")
  case None
  with assms show ?thesis by (simp add: keep_top_classifications_def normalised_image_def)
next
  case (Some dets)
  show ?thesis
  proof (cases "length dets = 0")
    case True
    with assms Some show ?thesis
      by (simp add: keep_top_classifications_def normalised_image_def)
  next
    case False
    with assms Some obtain dets' where l: "for_each keep_top_classification dets = Inr dets'"
      and im': "im' = im\<lparr>detections := Some dets'\<rparr>"
      by (auto simp: keep_top_classifications_def split: sum.splits)
    from for_each_all2[OF l] have "list_all2 top_only dets dets'"
      by (rule list_all2_mono) (rule keep_top_classification_top_only)
    with Some im' show ?thesis by (simp add: normalised_image_def)
  qed
qed

lemma describe_image_keeps:
  "describe_image opts descriptions im = Inr im' \<Longrightarrow>
   image_file im' = image_file im \<and> detections im' = detections im"
  by (auto simp: describe_image_def split: option.splits if_splits sum.splits)

lemma normalised_image_describe:
  "normalised_image im im1 \<Longrightarrow> describe_image opts descriptions im1 = Inr im2 \<Longrightarrow>
   normalised_image im im2"
  by (auto simp: normalised_image_def dest!: describe_image_keeps split: option.splits)

lemma unsorted_raises:
  assumes "has_unsorted_classifications dict"
  shows "for_each keep_top_classifications (images dict) = Inl AssertionError"
proof (rule for_each_raises)
  from assms obtain im dets det cs where im: "im \<in> set (images dict)"
    and dets: "detections im = Some dets" and det: "det \<in> set dets"
    and cs: "classifications det = Some cs" "\<not> is_list_sorted (map snd cs) True"
    by (auto simp: has_unsorted_classifications_def list_ex_iff split: option.splits)
  from cs have "cs \<noteq> []" by (auto simp: is_list_sorted_def)
  with cs have "keep_top_classification det = Inl AssertionError"
    by (simp add: keep_top_classification_def)
  with det have "\<exists>x \<in> set dets. \<exists>e. keep_top_classification x = Inl e" by blast
  then have "for_each keep_top_classification dets = Inl AssertionError"
    by (rule for_each_raises) (rule keep_top_classification_error)
  with dets det have "keep_top_classifications im = Inl AssertionError"
    by (auto simp: keep_top_classifications_def)
  with im show "\<exists>x \<in> set (images dict). \<exists>e. keep_top_classifications x = Inl e" by blast
qed (rule keep_top_classifications_error)

lemma prepare_dict_unsorted:
  "has_unsorted_classifications dict \<Longrightarrow> prepare_dict clean dict opts = Inl AssertionError"
  by (simp add: prepare_dict_def unsorted_raises)

lemma prepare_dict_normalised:
  assumes "prepare_dict clean dict opts = Inr r"
  shows "list_all2 normalised_image (images dict) (images (fst r))"
proof -
  from assms obtain images1 images2 where
    n: "for_each keep_top_classifications (images dict) = Inr images1"
    and p: "(if add_pre_smoothing_description opts
             then for_each (describe_image opts (classification_category_descriptions dict)) images1
             else Inr images1) = Inr images2"
    and r: "images (fst r) = images2"
    by (auto simp: prepare_dict_def Let_def split: sum.splits)
  from for_each_all2[OF n] have 1: "list_all2 normalised_image (images dict) images1"
    by (rule list_all2_mono) (rule keep_top_classifications_normalised)
  show ?thesis
  proof (cases "add_pre_smoothing_description opts")
    case False
    with p r 1 show ?thesis by simp
  next
    case True
    with p have "list_all2 (\<lambda>x y. describe_image opts
                   (classification_category_descriptions dict) x = Inr y) images1 images2"
      by (auto dest: for_each_all2)
    from list_all2_trans[of normalised_image _ normalised_image, OF _ 1 this] r
    show ?thesis by (auto dest: normalised_image_describe)
  qed
qed

lemma prepare_working_dict:
  "\<exists>a h1. (case input of
             Path name contents \<Rightarrow> alloc h contents
           | Dict input_dict \<Rightarrow>
               if modify_in_place opts then (input_dict, h)
               else alloc h (cells h input_dict)) = (a, h1)
          \<and> cells h1 a = given_dict h input"
  by (auto simp: alloc_def given_dict_def split: input_file.splits)

lemma prepare_unsorted:
  assumes "has_unsorted_classifications (given_dict h input)"
  shows "prepare_results_for_smoothing clean h input opts = Inl AssertionError"
proof -
  from prepare_working_dict[where input = input and h = h and opts = opts] obtain a h1 where
    "(case input of
             Path name contents \<Rightarrow> alloc h contents
           | Dict input_dict \<Rightarrow>
               if modify_in_place opts then (input_dict, h)
               else alloc h (cells h input_dict)) = (a, h1)"
    "cells h1 a = given_dict h input" by blast
  with prepare_dict_unsorted[OF assms, of clean opts] show ?thesis
    by (simp add: prepare_results_for_smoothing_def)
qed

lemma prepare_normalised:
  assumes "prepare_results_for_smoothing clean h input opts = Inr (r, h')"
  shows "list_all2 normalised_image (images (given_dict h input)) (images (cells h' (fst r)))"
proof -
  from prepare_working_dict[where input = input and h = h and opts = opts] obtain a h1 where w:
    "(case input of
             Path name contents \<Rightarrow> alloc h contents
           | Dict input_dict \<Rightarrow>
               if modify_in_place opts then (input_dict, h)
               else alloc h (cells h input_dict)) = (a, h1)"
    "cells h1 a = given_dict h input" by blast
  with assms obtain r0 where r0: "prepare_dict clean (given_dict h input) opts = Inr r0"
    and "fst r = a" "h' = store h1 a (fst r0)"
    by (auto simp: prepare_results_for_smoothing_def split: sum.splits)
  then have "cells h' (fst r) = fst r0" by (simp add: store_def)
  with prepare_dict_normalised[OF r0] show ?thesis by simp
qed

text \<open>
  Claim C7. The normaliser leaves a detection without a \<^verbatim>\<open>'classifications'\<close> field as
  it is, removes the field when its list is empty, and otherwise keeps the first entry
  only, after asserting that the confidence values are in descending order. If some
  detection of the input has confidence values that are not in descending order, the
  normaliser raises the assertion error, and so do both drivers: nothing catches it.
  When the normaliser returns, every image of the dict it worked on has the file name
  and the detections of the input image, each detection with its confidence and with
  no classifications (none or an empty list before) or the first one only.
\<close>

theorem normaliser_keeps_top_or_fails:
  "keep_top_classification det =
     (case classifications det of
        None \<Rightarrow> Inr det
      | Some [] \<Rightarrow> Inr (det\<lparr>classifications := None\<rparr>)
      | Some (c # cs) \<Rightarrow>
          if is_list_sorted (map snd (c # cs)) True
          then Inr (det\<lparr>classifications := Some [c]\<rparr>)
          else Inl AssertionError)
   \<and> (has_unsorted_classifications (given_dict h input) \<longrightarrow>
        prepare_results_for_smoothing clean h input opts = Inl AssertionError
        \<and> smooth_classification_results_image_level clean h input given = Inl AssertionError
        \<and> smooth_classification_results_sequence_level clean h input image_info given
            = Inl AssertionError)
   \<and> (\<forall>r h'. prepare_results_for_smoothing clean h input opts = Inr (r, h') \<longrightarrow>
         list_all2 normalised_image (images (given_dict h input))
           (images (cells h' (fst r))))"
proof (intro conjI allI impI)
  show "keep_top_classification det =
     (case classifications det of
        None \<Rightarrow> Inr det
      | Some [] \<Rightarrow> Inr (det\<lparr>classifications := None\<rparr>)
      | Some (c # cs) \<Rightarrow>
          if is_list_sorted (map snd (c # cs)) True
          then Inr (det\<lparr>classifications := Some [c]\<rparr>)
          else Inl AssertionError)"
    by (rule keep_top_classification_cases)
next
  assume u: "has_unsorted_classifications (given_dict h input)"
  then show "prepare_results_for_smoothing clean h input opts = Inl AssertionError"
    by (rule prepare_unsorted)
  from u show "smooth_classification_results_image_level clean h input given
                 = Inl AssertionError"
    by (simp add: smooth_classification_results_image_level_def prepare_unsorted)
  from u show "smooth_classification_results_sequence_level clean h input image_info given
            = Inl AssertionError"
    by (simp add: smooth_classification_results_sequence_level_def prepare_unsorted)
next
  fix r h' assume "prepare_results_for_smoothing clean h input opts = Inr (r, h')"
  then show "list_all2 normalised_image (images (given_dict h input))
               (images (cells h' (fst r)))"
    by (rule prepare_normalised)
qed

theorem normaliser_keeps_top_or_fails_witness:
  "has_unsorted_classifications (given_dict (heap_of unsorted_results) (Dict 0))
   \<and> prepare_results_for_smoothing id (heap_of unsorted_results) (Dict 0) default_options
       = Inl AssertionError
   \<and> smooth_classification_results_image_level id (heap_of unsorted_results) (Dict 0) None
       = Inl AssertionError"
proof -
  have h1: "has_unsorted_classifications (given_dict (heap_of unsorted_results) (Dict 0))"
    by code_simp
  from normaliser_keeps_top_or_fails[THEN conjunct2, THEN conjunct1, rule_format, OF h1]
  have "prepare_results_for_smoothing id (heap_of unsorted_results) (Dict 0) default_options
          = Inl AssertionError"
    and "smooth_classification_results_image_level id (heap_of unsorted_results) (Dict 0) None
          = Inl AssertionError"
    by blast+
  with h1 show ?thesis by (intro conjI)
qed

subsection \<open>The caller's dict\<close>




end
